theory Spec2Isabelle
  imports Complex_Main "HOL-Library.Multiset" "HOL-Library.Signed_Division"
begin

section \<open>Data model (src/types.ts)\<close>

text \<open>
  The TypeScript types of the draft. Numbers that the code uses as counters and indices
  are integers here. A slot that JavaScript can leave \<^verbatim>\<open>undefined\<close> (and that
  JSON writes as \<^verbatim>\<open>null\<close>) is an \<open>option\<close>, with \<open>None\<close> for both: an optional
  field of a card, the undo buffer, and the card of a pick, which is \<^verbatim>\<open>undefined\<close> when
  \<^verbatim>\<open>splice\<close> removed nothing.

  Fields keep their names, but for those that clash with a constant of the library or
  with a field of another record: \<^verbatim>\<open>id\<close> is \<open>cardId\<close> and \<open>packId\<close>, \<^verbatim>\<open>type\<close> is
  \<open>cardType\<close>, \<^verbatim>\<open>images.full\<close> is \<open>imageFull\<close>, the \<^verbatim>\<open>round\<close> and \<^verbatim>\<open>turn\<close> of a log
  entry are \<open>roundNo\<close> and \<open>turnNo\<close>, and the \<^verbatim>\<open>log\<close> of a draft is \<open>pickLog\<close>.
\<close>

datatype CardId = NumId int | StrId string

record Card =
  cardId :: CardId
  fullName :: string
  color :: string
  cost :: "int option"
  imageFull :: "string option"
  cardType :: "string option"
  keywordAbilities :: "string list option"
  baseCard :: "bool option"
  rarity :: "string option"

record Pack =
  packId :: string
  cards :: "Card list"
  removedLog :: "int list"

record RoundState =
  roundNumber :: int
  packs :: "Pack list"
  turn :: int

record PickLogEntry =
  roundNo :: int
  turnNo :: int
  packIndex :: int
  picked :: "Card option"
  removedCounts :: nat

datatype DraftState = DraftState
  (masterCards: "Card list")
  (rounds: "RoundState list")
  (currentRound: int)
  (currentTurn: int)
  (picks: "Card option list")
  (pickLog: "PickLogEntry list")
  (isComplete: bool)
  (undoBuffer: "DraftState option")

datatype error = TypeError

section \<open>Randomness (lib/random.ts)\<close>

text \<open>
  \<^verbatim>\<open>Math.random()\<close> returns a double in the interval from 0 (included) to 1 (excluded).
  Every such double is a finite binary fraction \<open>0.b\<^sub>1b\<^sub>2\<dots>b\<^sub>n\<close>; the random
  source is the sequence of the bit lists of the doubles that the successive calls
  return, and a counter says how many calls were made. Products with a draw are exact
  rationals here, not rounded doubles: for a draw just below \<open>j/n\<close> the code's rounded
  product can reach \<open>j\<close> where the exact one stays below it, so \<open>randomInt\<close> can be one
  less than the code's index there; both stay below \<open>n\<close>.
\<close>

type_synonym rng = "nat \<Rightarrow> bool list"

fun frac_of :: "bool list \<Rightarrow> rat" where
  "frac_of [] = 0"
| "frac_of (b # bs) = ((if b then 1 else 0) + frac_of bs) / 2"

definition Math_random :: "rng \<Rightarrow> nat \<Rightarrow> rat \<times> nat" where
  "Math_random R k = (frac_of (R k), Suc k)"

definition randomInt :: "rng \<Rightarrow> nat \<Rightarrow> nat \<Rightarrow> nat \<times> nat" where
  "randomInt R k n = (case Math_random R k of (u, k') \<Rightarrow> (nat \<lfloor>u * of_nat n\<rfloor>, k'))"

text \<open>
  \<^verbatim>\<open>arr.splice(start, 1)\<close>: a negative start counts from the end, a start past the end
  is the end; at most one element is removed. The result is the array that is left and
  the array of removed elements.
\<close>

definition spliceStart :: "int \<Rightarrow> nat \<Rightarrow> nat" where
  "spliceStart start len =
     (if start < 0 then nat (max (int len + start) 0) else min (nat start) len)"

definition splice1 :: "'a list \<Rightarrow> int \<Rightarrow> 'a list \<times> 'a list" where
  "splice1 xs start =
     (let a = spliceStart start (length xs)
      in (take a xs @ drop (Suc a) xs, take 1 (drop a xs)))"

text \<open>An index that is \<^verbatim>\<open>undefined\<close> is read by \<^verbatim>\<open>splice\<close> as 0.\<close>

definition spliceArg :: "int option \<Rightarrow> int" where
  "spliceArg start = (case start of None \<Rightarrow> 0 | Some i \<Rightarrow> i)"

text \<open>\<^verbatim>\<open>arr.splice(start)\<close>: everything from the start on is removed.\<close>

definition spliceFrom :: "'a list \<Rightarrow> int \<Rightarrow> 'a list" where
  "spliceFrom xs start = take (spliceStart start (length xs)) xs"

text \<open>
  The loop of \<^verbatim>\<open>sampleWithoutReplacement\<close>: \<open>n\<close> iterations are left, each draws an
  index into \<open>copy\<close>, pushes that element and splices it out. The index is below
  \<open>length copy\<close> whenever \<open>copy\<close> is not empty (lemma \<open>randomInt_less\<close>), and the loop
  runs at most \<open>length copy\<close> times.
\<close>

fun sampleLoop :: "rng \<Rightarrow> nat \<Rightarrow> nat \<Rightarrow> 'a list \<Rightarrow> 'a list \<Rightarrow> 'a list \<times> nat" where
  "sampleLoop R k 0 copy result = (result, k)"
| "sampleLoop R k (Suc n) copy result =
     (case randomInt R k (length copy) of
        (idx, k') \<Rightarrow>
          sampleLoop R k' n (fst (splice1 copy (int idx))) (result @ [copy ! idx]))"

definition sampleWithoutReplacement :: "rng \<Rightarrow> nat \<Rightarrow> 'a list \<Rightarrow> nat \<Rightarrow> 'a list \<times> nat" where
  "sampleWithoutReplacement R k arr kk = sampleLoop R k (min kk (length arr)) arr []"

text \<open>
  \<^verbatim>\<open>deepClone\<close> is a JSON round trip. Every value of the types above is plain data that
  JSON represents, so the clone is a structural copy, field by field and through the
  chain of undo buffers.
\<close>

fun deepClone :: "DraftState \<Rightarrow> DraftState" where
  "deepClone (DraftState mc rs cr ct ps lg ic ub) =
     DraftState mc rs cr ct ps lg ic (map_option deepClone ub)"

section \<open>Numbers as text\<close>

text \<open>A template literal writes an integer in decimal.\<close>

definition digit :: "nat \<Rightarrow> char" where
  "digit d = ''0123456789'' ! d"

function show_nat :: "nat \<Rightarrow> string" where
  "show_nat n = (if n < 10 then [digit n] else show_nat (n div 10) @ [digit (n mod 10)])"
  by pat_completeness auto
termination
  by (relation "measure id") auto

declare show_nat.simps [simp del]

definition show_int :: "int \<Rightarrow> string" where
  "show_int i = (if i < 0 then ''-'' @ show_nat (nat (- i)) else show_nat (nat i))"

section \<open>The draft (lib/draft.ts)\<close>

subsection \<open>Rarity\<close>

text \<open>
  \<^verbatim>\<open>rarityMap\<close> is an object literal, and \<^verbatim>\<open>rarityMap[rarity]\<close> also finds the members
  that every object inherits from \<^verbatim>\<open>Object.prototype\<close>: for these names the lookup gives
  a function (for \<^verbatim>\<open>__proto__\<close> an object), which is truthy, so \<^verbatim>\<open>|| 0\<close> keeps it and
  \<^verbatim>\<open>getRarityValue\<close> returns it. The result of \<^verbatim>\<open>getRarityValue\<close> is \<open>Some v\<close> for the
  number \<open>v\<close> and \<open>None\<close> for such a value that is not a number.
\<close>

definition rarityMap :: "(string \<times> int) list" where
  "rarityMap =
     [(''Common'', 1), (''Uncommon'', 2), (''Rare'', 3), (''Super Rare'', 4),
      (''Legendary'', 5), (''Epic'', 6), (''Iconic'', 7), (''Enchanted'', 8),
      (''Special'', 9)]"

definition objectPrototypeNames :: "string list" where
  "objectPrototypeNames =
     [''constructor'', ''hasOwnProperty'', ''isPrototypeOf'', ''propertyIsEnumerable'',
      ''toLocaleString'', ''toString'', ''valueOf'', ''__proto__'', ''__defineGetter__'',
      ''__defineSetter__'', ''__lookupGetter__'', ''__lookupSetter__'']"

definition getRarityValue :: "string option \<Rightarrow> int option" where
  "getRarityValue r =
     (case r of
        None \<Rightarrow> Some 0
      | Some s \<Rightarrow>
          if s = [] then Some 0
          else
            (case map_of rarityMap s of
               Some v \<Rightarrow> Some v
             | None \<Rightarrow> if s \<in> set objectPrototypeNames then None else Some 0))"

text \<open>
  The \<^verbatim>\<open>forEach\<close> of \<^verbatim>\<open>findRarestCardIndex\<close>: the cards still to visit, the index of
  the next one, and the two variables \<^verbatim>\<open>maxRarity\<close> and \<^verbatim>\<open>rarestIndices\<close>. A value that
  is not a number converts to \<^verbatim>\<open>NaN\<close> in \<^verbatim>\<open>rarityValue > maxRarity\<close> and is not
  \<^verbatim>\<open>=== maxRarity\<close>: both tests are false and the card is passed over.
\<close>

fun rarestScan :: "Card list \<Rightarrow> nat \<Rightarrow> int \<Rightarrow> nat list \<Rightarrow> int \<times> nat list" where
  "rarestScan [] index maxRarity rarestIndices = (maxRarity, rarestIndices)"
| "rarestScan (crd # rest) index maxRarity rarestIndices =
     (case getRarityValue (rarity crd) of
        None \<Rightarrow> rarestScan rest (Suc index) maxRarity rarestIndices
      | Some rarityValue \<Rightarrow>
          if rarityValue > maxRarity then rarestScan rest (Suc index) rarityValue [index]
          else if rarityValue = maxRarity
            then rarestScan rest (Suc index) maxRarity (rarestIndices @ [index])
          else rarestScan rest (Suc index) maxRarity rarestIndices)"

text \<open>
  \<^verbatim>\<open>findRarestCardIndex\<close>. The result is \<open>None\<close> when it is \<^verbatim>\<open>undefined\<close>: the element
  read from \<^verbatim>\<open>rarestIndices\<close> at an index that it does not have, which happens when
  \<^verbatim>\<open>rarestIndices\<close> is empty (\<^verbatim>\<open>randomInt(0)\<close> is 0).
\<close>

definition findRarestCardIndex :: "rng \<Rightarrow> nat \<Rightarrow> Card list \<Rightarrow> int option \<times> nat" where
  "findRarestCardIndex R k cs =
     (if length cs = 0 then (Some (- 1), k)
      else
        (case rarestScan cs 0 (- 1) [] of
           (maxRarity, rarestIndices) \<Rightarrow>
             if length rarestIndices = 1 then (Some (int (rarestIndices ! 0)), k)
             else
               (case randomInt R k (length rarestIndices) of
                  (j, k') \<Rightarrow>
                    (if j < length rarestIndices then Some (int (rarestIndices ! j)) else None,
                     k'))))"

subsection \<open>Rounds and packs\<close>

text \<open>The loop of \<^verbatim>\<open>createRound\<close> over the pack numbers \<open>i = 1, \<dots>, 6\<close>.\<close>

fun createPacks :: "rng \<Rightarrow> nat \<Rightarrow> int \<Rightarrow> Card list \<Rightarrow> nat list \<Rightarrow> Pack list \<times> nat" where
  "createPacks R k rn mc [] = ([], k)"
| "createPacks R k rn mc (i # others) =
     (case sampleWithoutReplacement R k mc 12 of
        (cs, k1) \<Rightarrow>
          (case createPacks R k1 rn mc others of
             (ps, k2) \<Rightarrow>
               (\<lparr>packId = ''R'' @ show_int rn @ ''P'' @ show_nat i, cards = cs,
                 removedLog = []\<rparr> # ps, k2)))"

definition createRound :: "rng \<Rightarrow> nat \<Rightarrow> int \<Rightarrow> Card list \<Rightarrow> RoundState \<times> nat" where
  "createRound R k rn mc =
     (case createPacks R k rn mc [1, 2, 3, 4, 5, 6] of
        (ps, k') \<Rightarrow> (\<lparr>roundNumber = rn, packs = ps, turn = 1\<rparr>, k'))"

definition createNewDraft :: "rng \<Rightarrow> nat \<Rightarrow> Card list \<Rightarrow> DraftState \<times> nat" where
  "createNewDraft R k mc =
     (case createRound R k 1 mc of
        (round1, k') \<Rightarrow> (DraftState mc [round1] 1 1 [] [] False None, k'))"

text \<open>JavaScript's \<^verbatim>\<open>%\<close> takes the sign of the dividend: it is \<open>smod\<close>.\<close>

definition getActivePackIndex :: "int \<Rightarrow> int" where
  "getActivePackIndex t = (t - 1) smod 6"

subsection \<open>Picking\<close>

text \<open>
  The index that the removal loop of \<^verbatim>\<open>pickCard\<close> computes for one pack:
  \<^verbatim>\<open>Math.random() < 0.5\<close> chooses between a random index and a rarest card.
\<close>

definition chooseRemoveIdx :: "rng \<Rightarrow> nat \<Rightarrow> Card list \<Rightarrow> int option \<times> nat" where
  "chooseRemoveIdx R k cs =
     (case Math_random R k of
        (u, k1) \<Rightarrow>
          if u < 1 / 2
          then (case randomInt R k1 (length cs) of (j, k2) \<Rightarrow> (Some (int j), k2))
          else findRarestCardIndex R k1 cs)"

text \<open>
  The removal loop, at pack number \<open>i\<close> with the packs from \<open>i\<close> on: the active pack is
  skipped, an empty pack is left alone, any other pack loses the card at the chosen
  index. The result is the packs, the number of removals and the counter of the source.
\<close>

fun removeFromOthers :: "rng \<Rightarrow> nat \<Rightarrow> int \<Rightarrow> nat \<Rightarrow> Pack list \<Rightarrow> (Pack list \<times> nat) \<times> nat" where
  "removeFromOthers R k active i [] = (([], 0), k)"
| "removeFromOthers R k active i (pack # others) =
     (if int i = active then
        (case removeFromOthers R k active (Suc i) others of
           ((ps, c), k') \<Rightarrow> ((pack # ps, c), k'))
      else if length (cards pack) > 0 then
        (case chooseRemoveIdx R k (cards pack) of
           (removeIdx, k1) \<Rightarrow>
             (case removeFromOthers R k1 active (Suc i) others of
                ((ps, c), k2) \<Rightarrow>
                  ((pack\<lparr>cards := fst (splice1 (cards pack) (spliceArg removeIdx))\<rparr> # ps,
                    Suc c), k2)))
      else
        (case removeFromOthers R k active (Suc i) others of
           ((ps, c), k') \<Rightarrow> ((pack # ps, c), k')))"

text \<open>
  \<^verbatim>\<open>pickCard\<close>. Reading \<^verbatim>\<open>.packs\<close> of a missing round or \<^verbatim>\<open>.cards\<close> of a missing pack
  throws a \<^verbatim>\<open>TypeError\<close>; nothing else in the function fails, and nothing in it looks at
  \<^verbatim>\<open>isComplete\<close> or at the range of \<^verbatim>\<open>cardIndex\<close>.
\<close>

definition pickCard :: "rng \<Rightarrow> nat \<Rightarrow> DraftState \<Rightarrow> int \<Rightarrow> error + (DraftState \<times> nat)" where
  "pickCard R k state cardIndex =
     (let newState = deepClone state;
          undo = Some (deepClone state)
      in if rounds newState = [] then Inl TypeError
         else
           let thisRound = last (rounds newState);
               pIndex = getActivePackIndex (currentTurn newState)
           in if pIndex < 0 \<or> int (length (packs thisRound)) \<le> pIndex then Inl TypeError
              else
                let activePack = packs thisRound ! nat pIndex;
                    (left, removed) = splice1 (cards activePack) cardIndex;
                    pickedCard = (case removed of [] \<Rightarrow> None | c # _ \<Rightarrow> Some c);
                    picks' = picks newState @ [pickedCard];
                    packs1 = (packs thisRound)[nat pIndex := activePack\<lparr>cards := left\<rparr>];
                    ((packs2, removedCount), k') = removeFromOthers R k pIndex 0 packs1;
                    rounds' = butlast (rounds newState) @ [thisRound\<lparr>packs := packs2\<rparr>];
                    logEntry = \<lparr>roundNo = currentRound newState, turnNo = currentTurn newState,
                                packIndex = pIndex, picked = pickedCard,
                                removedCounts = removedCount\<rparr>;
                    log' = pickLog newState @ [logEntry];
                    turn' = currentTurn newState + 1
                in if turn' > 12 then
                     (if currentRound newState < 6 then
                        (case createRound R k' (currentRound newState + 1) (masterCards newState) of
                           (nextRound, k'') \<Rightarrow>
                             Inr (DraftState (masterCards newState) (rounds' @ [nextRound])
                                    (currentRound newState + 1) 1 picks' log'
                                    (isComplete newState) undo, k''))
                      else
                        Inr (DraftState (masterCards newState) rounds' (currentRound newState)
                               turn' picks' log' True undo, k'))
                   else
                     Inr (DraftState (masterCards newState) rounds' (currentRound newState)
                            turn' picks' log' (isComplete newState) undo, k'))"

definition undoLastPick :: "DraftState \<Rightarrow> DraftState option" where
  "undoLastPick state =
     (case undoBuffer state of None \<Rightarrow> None | Some b \<Rightarrow> Some (deepClone b))"

subsection \<open>Resetting\<close>

text \<open>\<^verbatim>\<open>findIndex\<close>: the index of the first element that satisfies the test, or -1.\<close>

fun findIndexFrom :: "('a \<Rightarrow> bool) \<Rightarrow> nat \<Rightarrow> 'a list \<Rightarrow> int" where
  "findIndexFrom P i [] = - 1"
| "findIndexFrom P i (x # xs) = (if P x then int i else findIndexFrom P (Suc i) xs)"

definition findIndex :: "('a \<Rightarrow> bool) \<Rightarrow> 'a list \<Rightarrow> int" where
  "findIndex P xs = findIndexFrom P 0 xs"

text \<open>
  \<^verbatim>\<open>resetRound\<close>. The assignment to \<^verbatim>\<open>rounds[rounds.length - 1]\<close> replaces the last
  round; on an empty array it adds no element.
\<close>

definition resetRound :: "rng \<Rightarrow> nat \<Rightarrow> DraftState \<Rightarrow> DraftState \<times> nat" where
  "resetRound R k state =
     (let newState = deepClone state;
          currentRoundStartIdx =
            findIndex (\<lambda>entry. roundNo entry = currentRound newState) (pickLog newState);
          picks' = (if currentRoundStartIdx \<noteq> - 1
                    then spliceFrom (picks newState) currentRoundStartIdx else picks newState);
          log' = (if currentRoundStartIdx \<noteq> - 1
                  then spliceFrom (pickLog newState) currentRoundStartIdx else pickLog newState)
      in case createRound R k (currentRound newState) (masterCards newState) of
           (newRound, k') \<Rightarrow>
             (DraftState (masterCards newState)
                (if rounds newState = [] then []
                 else (rounds newState)[length (rounds newState) - 1 := newRound])
                (currentRound newState) 1 picks' log' (isComplete newState) None, k'))"

definition resetDraft :: "rng \<Rightarrow> nat \<Rightarrow> Card list \<Rightarrow> DraftState \<times> nat" where
  "resetDraft R k mc = createNewDraft R k mc"

section \<open>The tally (lib/draft.ts)\<close>

record TallyRow =
  tallyCount :: nat
  tallyFullName :: string
  tallyColor :: string

text \<open>The key of the \<^verbatim>\<open>Map\<close> in \<^verbatim>\<open>getTally\<close>: the full name, a bar, the color.\<close>

definition cardKey :: "Card \<Rightarrow> string" where
  "cardKey c = fullName c @ ''|'' @ color c"

text \<open>
  One iteration of the loop of \<^verbatim>\<open>getTally\<close>. The \<^verbatim>\<open>Map\<close> is the list of its entries in
  insertion order: an existing key has its count incremented in place, a new key is
  added at the end with count 1 and the name and color of the card.
\<close>

fun tallyAdd :: "Card \<Rightarrow> (string \<times> TallyRow) list \<Rightarrow> (string \<times> TallyRow) list" where
  "tallyAdd c [] =
     [(cardKey c, \<lparr>tallyCount = 1, tallyFullName = fullName c, tallyColor = color c\<rparr>)]"
| "tallyAdd c ((key, existing) # m) =
     (if key = cardKey c then (key, existing\<lparr>tallyCount := tallyCount existing + 1\<rparr>) # m
      else (key, existing) # tallyAdd c m)"

fun tallyLoop :: "Card list \<Rightarrow> (string \<times> TallyRow) list \<Rightarrow> (string \<times> TallyRow) list" where
  "tallyLoop [] m = m"
| "tallyLoop (c # cs) m = tallyLoop cs (tallyAdd c m)"

text \<open>
  The comparator of the sort. \<^verbatim>\<open>localeCompare\<close> is the platform's collation; it is a
  parameter of the model.
\<close>

definition tallyCompare :: "(string \<Rightarrow> string \<Rightarrow> int) \<Rightarrow> TallyRow \<Rightarrow> TallyRow \<Rightarrow> int" where
  "tallyCompare localeCompare a b =
     (if tallyCount a \<noteq> tallyCount b then int (tallyCount b) - int (tallyCount a)
      else localeCompare (tallyFullName a) (tallyFullName b))"

text \<open>
  \<^verbatim>\<open>Array.prototype.sort\<close> with a comparator is a stable sort; for a consistent
  comparator its result is the one of the stable insertion sort.
\<close>

fun insertSorted :: "('a \<Rightarrow> 'a \<Rightarrow> int) \<Rightarrow> 'a \<Rightarrow> 'a list \<Rightarrow> 'a list" where
  "insertSorted cmp x [] = [x]"
| "insertSorted cmp x (y # ys) =
     (if cmp x y \<le> 0 then x # y # ys else y # insertSorted cmp x ys)"

definition sortBy :: "('a \<Rightarrow> 'a \<Rightarrow> int) \<Rightarrow> 'a list \<Rightarrow> 'a list" where
  "sortBy cmp xs = foldr (insertSorted cmp) xs []"

definition getTally :: "(string \<Rightarrow> string \<Rightarrow> int) \<Rightarrow> Card list \<Rightarrow> TallyRow list" where
  "getTally localeCompare ps = sortBy (tallyCompare localeCompare) (map snd (tallyLoop ps []))"

fun joinWith :: "string \<Rightarrow> string list \<Rightarrow> string" where
  "joinWith sep [] = []"
| "joinWith sep [x] = x"
| "joinWith sep (x # y # ys) = x @ sep @ joinWith sep (y # ys)"

definition tallyLine :: "TallyRow \<Rightarrow> string" where
  "tallyLine t = show_nat (tallyCount t) @ '' '' @ tallyFullName t"

definition generateCopyTextWithoutColor :: "(string \<Rightarrow> string \<Rightarrow> int) \<Rightarrow> Card list \<Rightarrow> string" where
  "generateCopyTextWithoutColor localeCompare ps =
     joinWith [CHR 0x0A] (map tallyLine (getTally localeCompare ps))"

section \<open>Deck import (components/SavedDecks.tsx)\<close>

record DeckEntry =
  entryCount :: int
  entryFullName :: string
  entryColor :: "string option"

text \<open>
  Characters are bytes here: the white space of \<^verbatim>\<open>trim\<close> and of the pattern \<^verbatim>\<open>\s\<close> is
  space, tab, line feed, vertical tab, form feed and carriage return; the line
  terminators, which the pattern \<^verbatim>\<open>.\<close> does not match, are line feed and carriage
  return.
\<close>

definition isWhiteSpace :: "char \<Rightarrow> bool" where
  "isWhiteSpace c = (c \<in> set [CHR '' '', CHR 0x09, CHR 0x0A, CHR 0x0B, CHR 0x0C, CHR 0x0D])"

definition isLineTerminator :: "char \<Rightarrow> bool" where
  "isLineTerminator c = (c \<in> set [CHR 0x0A, CHR 0x0D])"

definition isDigit :: "char \<Rightarrow> bool" where
  "isDigit c = (c \<in> set ''0123456789'')"

definition trim :: "string \<Rightarrow> string" where
  "trim s = rev (dropWhile isWhiteSpace (rev (dropWhile isWhiteSpace s)))"

text \<open>\<^verbatim>\<open>split\<close> at a character, and at the separator \<^verbatim>\<open>' - '\<close>.\<close>

fun splitChar :: "char \<Rightarrow> string \<Rightarrow> string list" where
  "splitChar d [] = [[]]"
| "splitChar d (c # cs) =
     (if c = d then [] # splitChar d cs
      else (case splitChar d cs of [] \<Rightarrow> [[c]] | w # ws \<Rightarrow> (c # w) # ws))"

fun splitDash :: "string \<Rightarrow> string list" where
  "splitDash [] = [[]]"
| "splitDash (c # cs) =
     (if c = CHR '' '' \<and> take 2 cs = ''- '' then [] # splitDash (drop 2 cs)
      else (case splitDash cs of [] \<Rightarrow> [[c]] | w # ws \<Rightarrow> (c # w) # ws))"

text \<open>
  \<^verbatim>\<open>parseInt(s, 10)\<close>: leading white space, an optional sign, then the longest run of
  digits; \<^verbatim>\<open>NaN\<close> (here \<open>None\<close>) when there is no digit.
\<close>

definition digitsValue :: "string \<Rightarrow> nat" where
  "digitsValue ds = foldl (\<lambda>n c. 10 * n + (of_char c - 48)) 0 ds"

definition parseInt :: "string \<Rightarrow> int option" where
  "parseInt s =
     (let t = dropWhile isWhiteSpace s;
          neg = (take 1 t = ''-'');
          u = (if take 1 t = ''-'' \<or> take 1 t = ''+'' then drop 1 t else t);
          ds = takeWhile isDigit u
      in if ds = [] then None
         else Some ((if neg then - 1 else 1) * int (digitsValue ds)))"

text \<open>
  The match of \<^verbatim>\<open>/^(\d+)\s+(.+)$/\<close>: the leading digits, then white space, then at
  least one character up to the end of the line, none of them a line terminator. When
  only white space follows the digits, the pattern gives its last character to the
  second group. The result is the two groups.
\<close>

definition newFormatMatch :: "string \<Rightarrow> (string \<times> string) option" where
  "newFormatMatch line =
     (let ds = takeWhile isDigit line;
          rest = dropWhile isDigit line;
          ws = takeWhile isWhiteSpace rest;
          body = dropWhile isWhiteSpace rest
      in if ds = [] \<or> ws = [] then None
         else if body \<noteq> [] then
           (if \<exists>c \<in> set body. isLineTerminator c then None else Some (ds, body))
         else if 2 \<le> length ws \<and> \<not> isLineTerminator (last ws) then Some (ds, [last ws])
         else None)"

definition colors :: "string list" where
  "colors = [''Amber'', ''Amethyst'', ''Emerald'', ''Ruby'', ''Sapphire'', ''Steel'']"

text \<open>
  The body of the loop of \<^verbatim>\<open>parseDeckText\<close> for one line, in the order of the source:
  the new format, then the old format with a color, then the format without a color.
  The result is the entry that is pushed, if any.
\<close>

definition parseNoColor :: "string list \<Rightarrow> DeckEntry option" where
  "parseNoColor parts =
     (if 2 \<le> length parts then
        (case parseInt (trim (parts ! 0)) of
           None \<Rightarrow> None
         | Some n \<Rightarrow>
             if 0 < n then
               (let name = trim (joinWith '' - '' (drop 1 parts))
                in if name \<noteq> [] then
                     Some \<lparr>entryCount = n, entryFullName = name, entryColor = None\<rparr>
                   else None)
             else None)
      else None)"

definition parseOldFormat :: "string \<Rightarrow> DeckEntry option" where
  "parseOldFormat line =
     (let parts = splitDash line
      in if 3 \<le> length parts then
           (case parseInt (trim (parts ! 0)) of
              None \<Rightarrow> None
            | Some n \<Rightarrow>
                if n \<le> 0 then None
                else
                  (let lastPart = trim (last parts)
                   in if lastPart \<in> set colors then
                        (let name = trim (joinWith '' - '' (butlast (drop 1 parts)))
                         in if name \<noteq> [] \<and> lastPart \<noteq> [] then
                              Some \<lparr>entryCount = n, entryFullName = name,
                                    entryColor = Some lastPart\<rparr>
                            else parseNoColor parts)
                      else parseNoColor parts))
         else parseNoColor parts)"

definition parseLine :: "string \<Rightarrow> DeckEntry option" where
  "parseLine line =
     (case newFormatMatch line of
        None \<Rightarrow> parseOldFormat line
      | Some (g1, g2) \<Rightarrow>
          (case parseInt g1 of
             None \<Rightarrow> parseOldFormat line
           | Some n \<Rightarrow>
               if 0 < n \<and> trim g2 \<noteq> [] then
                 Some \<lparr>entryCount = n, entryFullName = trim g2, entryColor = None\<rparr>
               else parseOldFormat line))"

definition parseDeckText :: "string \<Rightarrow> DeckEntry list" where
  "parseDeckText text =
     List.map_filter parseLine
       (filter (\<lambda>line. trim line \<noteq> []) (splitChar (CHR 0x0A) (trim text)))"

text \<open>The legacy line \<^verbatim>\<open>"<count> - <fullName> - <color>"\<close>.\<close>

definition legacyLine :: "nat \<Rightarrow> string \<Rightarrow> string \<Rightarrow> string" where
  "legacyLine n name col = show_nat n @ '' - '' @ name @ '' - '' @ col"

section \<open>Vocabulary of the properties\<close>

text \<open>Example data: cards, pools and random sources.\<close>

definition exampleCard :: "string \<Rightarrow> string \<Rightarrow> string option \<Rightarrow> Card" where
  "exampleCard n c r =
     \<lparr>cardId = StrId n, fullName = n, color = c, cost = None, imageFull = None,
      cardType = None, keywordAbilities = None, baseCard = None, rarity = r\<rparr>"

definition pool3 :: "Card list" where
  "pool3 =
     [exampleCard ''Card A'' ''Amber'' (Some ''Rare''),
      exampleCard ''Card B'' ''Ruby'' None,
      exampleCard ''Card C'' ''Steel'' (Some ''Common'')]"

definition pool12 :: "Card list" where
  "pool12 = pool3 @ pool3 @ pool3 @ pool3"

definition zeroSource :: rng where
  "zeroSource = (\<lambda>_. [])"

definition halfSource :: rng where
  "halfSource = (\<lambda>_. [True])"

text \<open>
  The precondition of a pick: the draft is not complete and the index addresses a card of
  the active pack. \<open>pickAll\<close> performs a sequence of picks, each checked against this
  precondition in the state it is made in.
\<close>

definition validPick :: "DraftState \<Rightarrow> int \<Rightarrow> bool" where
  "validPick s i =
     (\<not> isComplete s \<and> rounds s \<noteq> [] \<and>
      0 \<le> getActivePackIndex (currentTurn s) \<and>
      getActivePackIndex (currentTurn s) < int (length (packs (last (rounds s)))) \<and>
      0 \<le> i \<and>
      i < int (length (cards (packs (last (rounds s)) ! nat (getActivePackIndex (currentTurn s))))))"

fun pickAll :: "rng \<Rightarrow> nat \<Rightarrow> DraftState \<Rightarrow> int list \<Rightarrow> (DraftState \<times> nat) option" where
  "pickAll R k s [] = Some (s, k)"
| "pickAll R k s (i # rest) =
     (if validPick s i then
        (case pickCard R k s i of
           Inl e \<Rightarrow> None
         | Inr (s', k') \<Rightarrow> pickAll R k' s' rest)
      else None)"

text \<open>A round of 6 packs that all hold \<open>n\<close> cards.\<close>

definition roundShape :: "nat \<Rightarrow> RoundState \<Rightarrow> bool" where
  "roundShape n r = (length (packs r) = 6 \<and> (\<forall>p \<in> set (packs r). length (cards p) = n))"

text \<open>
  The shape of a draft after \<open>n\<close> picks over a pool: the \<open>j\<close>-th event of the log
  belongs to round \<open>j div 12 + 1\<close>, \<open>n div 12\<close> rounds are finished
  with all packs empty, and below 72 picks the current round is at turn \<open>n mod 12 + 1\<close>
  with \<open>12 - n mod 12\<close> cards in each of its 6 packs; at 72 picks the draft is complete.
\<close>

definition draftAt :: "Card list \<Rightarrow> nat \<Rightarrow> DraftState \<Rightarrow> bool" where
  "draftAt pool n s =
     (masterCards s = pool \<and> length (picks s) = n \<and> length (pickLog s) = n \<and> n \<le> 72 \<and>
      map roundNo (pickLog s) = map (\<lambda>j. int (j div 12) + 1) [0..<n] \<and>
      (if n < 72 then
         \<not> isComplete s \<and> currentRound s = int (n div 12) + 1 \<and>
         currentTurn s = int (n mod 12) + 1 \<and> length (rounds s) = n div 12 + 1 \<and>
         roundShape (12 - n mod 12) (last (rounds s)) \<and>
         (\<forall>j < n div 12. roundShape 0 (rounds s ! j))
       else
         isComplete s \<and> currentRound s = 6 \<and> currentTurn s = 13 \<and>
         length (rounds s) = 6 \<and> (\<forall>j < 6. roundShape 0 (rounds s ! j))))"

text \<open>
  The state and the counter that a successful pick returns, and three states of an
  example draft: freshly created, after two picks of index 0, and after all 72.
\<close>

definition pickedState :: "rng \<Rightarrow> nat \<Rightarrow> DraftState \<Rightarrow> int \<Rightarrow> DraftState" where
  "pickedState R k s i = fst (projr (pickCard R k s i))"

definition pickedCounter :: "rng \<Rightarrow> nat \<Rightarrow> DraftState \<Rightarrow> int \<Rightarrow> nat" where
  "pickedCounter R k s i = snd (projr (pickCard R k s i))"

definition freshDraft :: DraftState where
  "freshDraft = fst (createNewDraft halfSource 0 pool12)"

definition freshCounter :: nat where
  "freshCounter = snd (createNewDraft halfSource 0 pool12)"

definition onePickDraft :: DraftState where
  "onePickDraft = pickedState halfSource freshCounter freshDraft 0"

definition onePickCounter :: nat where
  "onePickCounter = pickedCounter halfSource freshCounter freshDraft 0"

definition twoPicksDraft :: DraftState where
  "twoPicksDraft = pickedState halfSource onePickCounter onePickDraft 0"

definition finishedDraft :: DraftState where
  "finishedDraft = fst (the (pickAll halfSource freshCounter freshDraft (replicate 72 0)))"

definition finishedCounter :: nat where
  "finishedCounter = snd (the (pickAll halfSource freshCounter freshDraft (replicate 72 0)))"

definition eighteenPicksDraft :: DraftState where
  "eighteenPicksDraft = fst (the (pickAll halfSource freshCounter freshDraft (replicate 18 0)))"

text \<open>
  Cards for the rarity lookup: two whose rarity is a name that every object inherits
  (\<^verbatim>\<open>constructor\<close>, \<^verbatim>\<open>toString\<close>) and one without a rarity; and a draft over the first two.
\<close>

definition constructorCard :: Card where
  "constructorCard = exampleCard ''Card X'' ''Amber'' (Some ''constructor'')"

definition toStringCard :: Card where
  "toStringCard = exampleCard ''Card Y'' ''Steel'' (Some ''toString'')"

definition noRarityCard :: Card where
  "noRarityCard = exampleCard ''Card B'' ''Ruby'' None"

definition inheritedDraft :: DraftState where
  "inheritedDraft = fst (createNewDraft halfSource 0 [constructorCard, toStringCard])"

definition inheritedCounter :: nat where
  "inheritedCounter = snd (createNewDraft halfSource 0 [constructorCard, toStringCard])"

text \<open>
  A comparator of names is consistent when it is total and transitive, read as
  \<open>a\<close> before or equal to \<open>b\<close> when the result is not positive. \<open>tallyBefore\<close> is the
  order of the tally: a larger count first, and for equal counts the name not after.
  \<open>codeUnitCompare\<close> is an example of a consistent comparator: the comparison of the
  character codes, position by position.
\<close>

definition consistentComparator :: "(string \<Rightarrow> string \<Rightarrow> int) \<Rightarrow> bool" where
  "consistentComparator lc =
     ((\<forall>a b. lc a b \<le> 0 \<or> lc b a \<le> 0) \<and>
      (\<forall>a b c. lc a b \<le> 0 \<longrightarrow> lc b c \<le> 0 \<longrightarrow> lc a c \<le> 0))"

definition tallyBefore :: "(string \<Rightarrow> string \<Rightarrow> int) \<Rightarrow> TallyRow \<Rightarrow> TallyRow \<Rightarrow> bool" where
  "tallyBefore lc a b =
     (tallyCount b < tallyCount a \<or>
      tallyCount a = tallyCount b \<and> lc (tallyFullName a) (tallyFullName b) \<le> 0)"

fun codeUnitCompare :: "string \<Rightarrow> string \<Rightarrow> int" where
  "codeUnitCompare [] [] = 0"
| "codeUnitCompare [] (y # ys) = - 1"
| "codeUnitCompare (x # xs) [] = 1"
| "codeUnitCompare (x # xs) (y # ys) =
     (if (of_char x :: nat) < of_char y then - 1
      else if (of_char y :: nat) < of_char x then 1
      else codeUnitCompare xs ys)"

definition examplePicks :: "Card list" where
  "examplePicks = [pool3 ! 2, pool3 ! 0, pool3 ! 1, pool3 ! 0]"

section \<open>Facts about the random source and sampling\<close>

lemma frac_of_range: "0 \<le> frac_of bs \<and> frac_of bs < 1"
  by (induction bs) auto

lemma randomInt_less: "0 < n \<Longrightarrow> fst (randomInt R k n) < n"
proof -
  assume n: "0 < n"
  let ?u = "frac_of (R k)"
  have u: "0 \<le> ?u" "?u < 1" using frac_of_range by auto
  have "?u * of_nat n < of_nat n" using u n by simp
  then have "\<lfloor>?u * of_nat n\<rfloor> < int n"
    by (simp add: floor_less_iff)
  moreover have "0 \<le> \<lfloor>?u * of_nat n\<rfloor>" using u by simp
  ultimately have "nat \<lfloor>?u * of_nat n\<rfloor> < n"
    by linarith
  then show ?thesis
    by (simp add: randomInt_def Math_random_def)
qed

lemma randomInt_counter: "snd (randomInt R k n) = Suc k"
  by (simp add: randomInt_def Math_random_def)

lemma deepClone_id: "deepClone s = s"
proof (induction s rule: deepClone.induct)
  case (1 mc rs cr ct ps lg ic ub)
  then show ?case by (cases ub) simp_all
qed


lemma splice1_valid:
  "i < length xs \<Longrightarrow> splice1 xs (int i) = (take i xs @ drop (Suc i) xs, [xs ! i])"
  by (simp add: splice1_def spliceStart_def Let_def min_def flip: Cons_nth_drop_Suc)

lemma mset_remove_nth:
  "i < length xs \<Longrightarrow> mset (take i xs @ drop (Suc i) xs) + {#xs ! i#} = mset xs"
proof -
  assume i: "i < length xs"
  then have "xs = take i xs @ xs ! i # drop (Suc i) xs" by (rule id_take_nth_drop)
  then have "mset xs = mset (take i xs @ xs ! i # drop (Suc i) xs)" by simp
  then show ?thesis by simp
qed

lemma sampleLoop_inv:
  "n \<le> length copy \<Longrightarrow> sampleLoop R k n copy result = (res, k') \<Longrightarrow>
   length res = length result + n \<and>
   (\<exists>rest. mset res + mset rest = mset result + mset copy \<and> length rest = length copy - n)"
proof (induction n arbitrary: k copy result)
  case 0
  then show ?case by auto
next
  case (Suc n)
  obtain idx k1 where r: "randomInt R k (length copy) = (idx, k1)" by (cases "randomInt R k (length copy)")
  have pos: "0 < length copy" using Suc.prems(1) by linarith
  have idx: "idx < length copy" using randomInt_less[OF pos, of R k] r by simp
  let ?copy' = "take idx copy @ drop (Suc idx) copy"
  have step: "sampleLoop R k1 n ?copy' (result @ [copy ! idx]) = (res, k')"
    using Suc.prems(2) r idx by (simp add: splice1_valid)
  have len: "n \<le> length ?copy'" using Suc.prems(1) idx by simp
  from Suc.IH[OF len step] obtain rest where
    a: "length res = length (result @ [copy ! idx]) + n" and
    b: "mset res + mset rest = mset (result @ [copy ! idx]) + mset ?copy'" and
    c: "length rest = length ?copy' - n" by blast
  have "mset res + mset rest = mset result + mset copy"
    using b mset_remove_nth[OF idx] by (simp add: ac_simps)
  moreover have "length rest = length copy - Suc n" using c idx by simp
  ultimately show ?case using a by auto
qed

lemma filter_upt_Suc_shift:
  "[j \<leftarrow> [0..<Suc n]. P j] = (if P 0 then [0] else []) @ map Suc [j \<leftarrow> [0..<n]. P (Suc j)]"
proof -
  have "[0..<Suc n] = 0 # map Suc [0..<n]"
    by (simp add: upt_conv_Cons map_Suc_upt del: upt_Suc)
  then show ?thesis by (simp add: filter_map comp_def del: upt_Suc)
qed

lemma rarestScan_bound:
  "rarestScan rest i m acc = (M, L) \<Longrightarrow> \<forall>x \<in> set acc. x < i \<Longrightarrow>
   \<forall>x \<in> set L. x < i + length rest"
proof (induction rest arbitrary: i m acc)
  case Nil
  then show ?case by simp
next
  case (Cons c rest)
  have one: "\<forall>x \<in> set [i]. x < Suc i" by simp
  have app: "\<forall>x \<in> set (acc @ [i]). x < Suc i" using Cons.prems(2) by (auto intro: less_SucI)
  have same: "\<forall>x \<in> set acc. x < Suc i" using Cons.prems(2) by (auto intro: less_SucI)
  show ?case
  proof (cases "getRarityValue (rarity c)")
    case None
    then have "rarestScan rest (Suc i) m acc = (M, L)" using Cons.prems(1) by simp
    from Cons.IH[OF this same] show ?thesis by simp
  next
    case (Some v)
    consider (gt) "v > m" | (eq) "v = m" | (lt) "v < m" by linarith
    then show ?thesis
    proof cases
      case gt
      then have "rarestScan rest (Suc i) v [i] = (M, L)" using Cons.prems(1) Some by simp
      from Cons.IH[OF this one] show ?thesis by simp
    next
      case eq
      then have "rarestScan rest (Suc i) m (acc @ [i]) = (M, L)"
        using Cons.prems(1) Some by simp
      from Cons.IH[OF this app] show ?thesis by simp
    next
      case lt
      then have "rarestScan rest (Suc i) m acc = (M, L)" using Cons.prems(1) Some by simp
      from Cons.IH[OF this same] show ?thesis by simp
    qed
  qed
qed

lemma findRarestCardIndex_valid:
  assumes "cs \<noteq> []"
  shows "0 \<le> spliceArg (fst (findRarestCardIndex R k cs)) \<and>
         spliceArg (fst (findRarestCardIndex R k cs)) < int (length cs)"
proof -
  obtain M L where scan: "rarestScan cs 0 (- 1) [] = (M, L)"
    by (cases "rarestScan cs 0 (- 1) []")
  have bound: "\<forall>x \<in> set L. x < length cs" using rarestScan_bound[OF scan] by simp
  obtain j k' where r: "randomInt R k (length L) = (j, k')"
    by (cases "randomInt R k (length L)")
  have pos: "0 < length cs" using assms by simp
  show ?thesis
  proof (cases "length L = 1")
    case True
    then have "L ! 0 \<in> set L" by (cases L) simp_all
    then have "L ! 0 < length cs" using bound by blast
    then show ?thesis using assms scan True by (simp add: findRarestCardIndex_def spliceArg_def)
  next
    case False
    show ?thesis
    proof (cases "j < length L")
      case True
      then have "L ! j \<in> set L" by simp
      then have "L ! j < length cs" using bound by blast
      then show ?thesis using assms scan False r True
        by (simp add: findRarestCardIndex_def spliceArg_def)
    next
      case nj: False
      show ?thesis using assms scan False r nj pos
        by (simp add: findRarestCardIndex_def spliceArg_def)
    qed
  qed
qed

lemma chooseRemoveIdx_valid:
  assumes "cs \<noteq> []"
  shows "0 \<le> spliceArg (fst (chooseRemoveIdx R k cs)) \<and>
         spliceArg (fst (chooseRemoveIdx R k cs)) < int (length cs)"
proof (cases "frac_of (R k) < 1 / 2")
  case True
  have pos: "0 < length cs" using assms by simp
  have "fst (randomInt R (Suc k) (length cs)) < length cs" using randomInt_less[OF pos] .
  then show ?thesis using True
    by (auto simp: chooseRemoveIdx_def Math_random_def spliceArg_def split: prod.splits)
next
  case False
  then show ?thesis using findRarestCardIndex_valid[OF assms, of R "Suc k"]
    by (simp add: chooseRemoveIdx_def Math_random_def)
qed

lemma splice1_length:
  "0 \<le> i \<Longrightarrow> i < int (length xs) \<Longrightarrow> length (fst (splice1 xs i)) = length xs - 1"
  by (auto simp: splice1_def spliceStart_def Let_def min_def)

section \<open>Pack creation\<close>

lemma sample_props:
  assumes "sampleWithoutReplacement R k arr n = (res, k')"
  shows "length res = min n (length arr) \<and> mset res \<subseteq># mset arr \<and>
         (length arr \<le> n \<longrightarrow> mset res = mset arr)"
proof -
  let ?m = "min n (length arr)"
  have le: "?m \<le> length arr" by simp
  have run: "sampleLoop R k ?m arr [] = (res, k')"
    using assms by (simp add: sampleWithoutReplacement_def)
  from sampleLoop_inv[OF le run] obtain rest where
    len: "length res = ?m" and ms: "mset res + mset rest = mset arr"
    and lr: "length rest = length arr - ?m" by auto
  have sub: "mset res \<subseteq># mset arr" using ms by (metis mset_subset_eq_add_left)
  have "length arr \<le> n \<longrightarrow> mset res = mset arr"
  proof
    assume "length arr \<le> n"
    then have "rest = []" using lr by simp
    then show "mset res = mset arr" using ms by simp
  qed
  then show ?thesis using len sub by simp
qed

lemma createPacks_props:
  "createPacks R k rn mc is = (ps, k') \<Longrightarrow>
   length ps = length is \<and>
   (\<forall>p \<in> set ps. length (cards p) = min 12 (length mc) \<and> mset (cards p) \<subseteq># mset mc \<and>
      (length mc \<le> 12 \<longrightarrow> mset (cards p) = mset mc))"
proof (induction "is" arbitrary: k ps k')
  case Nil
  then show ?case by simp
next
  case (Cons i "is")
  obtain cs k1 where s: "sampleWithoutReplacement R k mc 12 = (cs, k1)"
    by (cases "sampleWithoutReplacement R k mc 12")
  obtain qs k2 where r: "createPacks R k1 rn mc is = (qs, k2)"
    by (cases "createPacks R k1 rn mc is")
  let ?p = "\<lparr>packId = ''R'' @ show_int rn @ ''P'' @ show_nat i, cards = cs, removedLog = []\<rparr>"
  have ps: "ps = ?p # qs"
    using Cons.prems s r by simp
  have hd: "length (cards ?p) = min 12 (length mc) \<and> mset (cards ?p) \<subseteq># mset mc \<and>
      (length mc \<le> 12 \<longrightarrow> mset (cards ?p) = mset mc)"
    using sample_props[OF s] by simp
  from Cons.IH[OF r] have tl: "length qs = length is" and
    all: "\<forall>p \<in> set qs. length (cards p) = min 12 (length mc) \<and> mset (cards p) \<subseteq># mset mc \<and>
      (length mc \<le> 12 \<longrightarrow> mset (cards p) = mset mc)" by blast+
  have "length ps = length (i # is)" using ps tl by simp
  moreover have "\<forall>p \<in> set ps. length (cards p) = min 12 (length mc) \<and> mset (cards p) \<subseteq># mset mc \<and>
      (length mc \<le> 12 \<longrightarrow> mset (cards p) = mset mc)"
  proof
    fix p assume "p \<in> set ps"
    then have "p = ?p \<or> p \<in> set qs" unfolding ps by (rule set_ConsD[THEN disjE]) blast+
    then show "length (cards p) = min 12 (length mc) \<and> mset (cards p) \<subseteq># mset mc \<and>
      (length mc \<le> 12 \<longrightarrow> mset (cards p) = mset mc)"
      using hd all by blast
  qed
  ultimately show ?case by blast
qed

lemma createRound_packs:
  "length (packs (fst (createRound R k rn pool))) = 6 \<and>
   (\<forall>p \<in> set (packs (fst (createRound R k rn pool))).
      length (cards p) = min 12 (length pool) \<and>
      mset (cards p) \<subseteq># mset pool \<and>
      (length pool < 12 \<longrightarrow> mset (cards p) = mset pool))"
proof -
  obtain ps k' where c: "createPacks R k rn pool [1, 2, 3, 4, 5, 6] = (ps, k')"
    by (cases "createPacks R k rn pool [1, 2, 3, 4, 5, 6]")
  then have "packs (fst (createRound R k rn pool)) = ps"
    by (simp add: createRound_def)
  then show ?thesis using createPacks_props[OF c] by simp
qed

text \<open>
  Claim C10. For every card pool (and every random source) pack creation returns packs,
  with no failure case: a round has 6 packs, each pack holds exactly \<open>min 12 |pool|\<close>
  cards, the cards of a pack are drawn without replacement (as a multiset they are
  contained in the pool, so no pool entry is used twice in one draw), and for a pool of
  fewer than 12 entries each pack is a permutation of the whole pool.
\<close>

theorem pack_creation_sizes:
  "length (packs (fst (createRound R k rn pool))) = 6 \<and>
   (\<forall>p \<in> set (packs (fst (createRound R k rn pool))).
      length (cards p) = min 12 (length pool) \<and>
      mset (cards p) \<subseteq># mset pool \<and>
      (length pool < 12 \<longrightarrow> mset (cards p) = mset pool))"
  by (rule createRound_packs)

text \<open>Claim C10 at the three-card pool: a short pack that permutes the pool.\<close>

theorem pack_creation_sizes_witness:
  "length (packs (fst (createRound halfSource 0 1 pool3))) = 6 \<and>
   length pool3 < 12 \<and>
   length (cards (packs (fst (createRound halfSource 0 1 pool3)) ! 0)) = 3 \<and>
   mset (cards (packs (fst (createRound halfSource 0 1 pool3)) ! 0)) = mset pool3"
proof -
  let ?ps = "packs (fst (createRound halfSource 0 1 pool3))"
  have len: "length pool3 < 12" "min 12 (length pool3) = 3" by (simp_all add: pool3_def)
  have six: "length ?ps = 6"
    using pack_creation_sizes[of halfSource 0 1 pool3] by simp
  then have "?ps ! 0 \<in> set ?ps" by simp
  then have "length (cards (?ps ! 0)) = min 12 (length pool3) \<and> mset (cards (?ps ! 0)) = mset pool3"
    using pack_creation_sizes[of halfSource 0 1 pool3] len(1) by blast
  then show ?thesis using six len by simp
qed

section \<open>The removal loop\<close>

lemma removeFromOthers_props:
  "removeFromOthers R k a i ps = ((qs, c), k') \<Longrightarrow>
   length qs = length ps \<and>
   (\<forall>j < length ps.
      (int (i + j) = a \<or> cards (ps ! j) = [] \<longrightarrow> qs ! j = ps ! j) \<and>
      (int (i + j) \<noteq> a \<and> cards (ps ! j) \<noteq> [] \<longrightarrow>
         (\<exists>k1. qs ! j = (ps ! j)\<lparr>cards := fst (splice1 (cards (ps ! j)) (spliceArg (fst (chooseRemoveIdx R k1 (cards (ps ! j))))))\<rparr>))) \<and>
   c = length [j \<leftarrow> [0..<length ps]. int (i + j) \<noteq> a \<and> cards (ps ! j) \<noteq> []]"
proof (induction ps arbitrary: k i qs c k')
  case Nil
  then show ?case by simp
next
  case (Cons p ps)
  show ?case
  proof (cases "int i = a \<or> cards p = []")
    case True
    obtain qs1 c1 k1 where r: "removeFromOthers R k a (Suc i) ps = ((qs1, c1), k1)"
      by (metis prod.exhaust)
    have res: "qs = p # qs1" "c = c1" using Cons.prems r True by (auto split: if_splits)
    note ih = Cons.IH[OF r]
    have len: "length qs = length (p # ps)" using ih res by simp
    have cnt: "c = length [j \<leftarrow> [0..<length (p # ps)]. int (i + j) \<noteq> a \<and> cards ((p # ps) ! j) \<noteq> []]"
      using ih res True by (auto simp add: filter_upt_Suc_shift ac_simps simp del: upt_Suc)
    have each: "\<forall>j < length (p # ps).
      (int (i + j) = a \<or> cards ((p # ps) ! j) = [] \<longrightarrow> qs ! j = (p # ps) ! j) \<and>
      (int (i + j) \<noteq> a \<and> cards ((p # ps) ! j) \<noteq> [] \<longrightarrow>
         (\<exists>k1. qs ! j = ((p # ps) ! j)\<lparr>cards := fst (splice1 (cards ((p # ps) ! j)) (spliceArg (fst (chooseRemoveIdx R k1 (cards ((p # ps) ! j))))))\<rparr>))"
    proof (intro allI impI)
      fix j assume j: "j < length (p # ps)"
      show "(int (i + j) = a \<or> cards ((p # ps) ! j) = [] \<longrightarrow> qs ! j = (p # ps) ! j) \<and>
      (int (i + j) \<noteq> a \<and> cards ((p # ps) ! j) \<noteq> [] \<longrightarrow>
         (\<exists>k1. qs ! j = ((p # ps) ! j)\<lparr>cards := fst (splice1 (cards ((p # ps) ! j)) (spliceArg (fst (chooseRemoveIdx R k1 (cards ((p # ps) ! j))))))\<rparr>))"
      proof (cases j)
        case 0
        then show ?thesis using True res by auto
      next
        case (Suc j')
        then have "j' < length ps" using j by simp
        then show ?thesis using ih Suc res by simp
      qed
    qed
    show ?thesis using len each cnt by blast
  next
    case False
    obtain idx k1 where ch: "chooseRemoveIdx R k (cards p) = (idx, k1)" by (metis prod.exhaust)
    obtain qs1 c1 k2 where r: "removeFromOthers R k1 a (Suc i) ps = ((qs1, c1), k2)"
      by (metis prod.exhaust)
    have res: "qs = p\<lparr>cards := fst (splice1 (cards p) (spliceArg idx))\<rparr> # qs1" "c = Suc c1"
      using Cons.prems r ch False by (auto split: if_splits)
    note ih = Cons.IH[OF r]
    have len: "length qs = length (p # ps)" using ih res by simp
    have cnt: "c = length [j \<leftarrow> [0..<length (p # ps)]. int (i + j) \<noteq> a \<and> cards ((p # ps) ! j) \<noteq> []]"
      using ih res False by (auto simp add: filter_upt_Suc_shift ac_simps simp del: upt_Suc)
    have each: "\<forall>j < length (p # ps).
      (int (i + j) = a \<or> cards ((p # ps) ! j) = [] \<longrightarrow> qs ! j = (p # ps) ! j) \<and>
      (int (i + j) \<noteq> a \<and> cards ((p # ps) ! j) \<noteq> [] \<longrightarrow>
         (\<exists>k1. qs ! j = ((p # ps) ! j)\<lparr>cards := fst (splice1 (cards ((p # ps) ! j)) (spliceArg (fst (chooseRemoveIdx R k1 (cards ((p # ps) ! j))))))\<rparr>))"
    proof (intro allI impI)
      fix j assume j: "j < length (p # ps)"
      show "(int (i + j) = a \<or> cards ((p # ps) ! j) = [] \<longrightarrow> qs ! j = (p # ps) ! j) \<and>
      (int (i + j) \<noteq> a \<and> cards ((p # ps) ! j) \<noteq> [] \<longrightarrow>
         (\<exists>k1. qs ! j = ((p # ps) ! j)\<lparr>cards := fst (splice1 (cards ((p # ps) ! j)) (spliceArg (fst (chooseRemoveIdx R k1 (cards ((p # ps) ! j))))))\<rparr>))"
      proof (cases j)
        case 0
        have "fst (chooseRemoveIdx R k (cards p)) = idx" using ch by simp
        then show ?thesis using False res 0 by auto
      next
        case (Suc j')
        then have "j' < length ps" using j by simp
        then show ?thesis using ih Suc res by simp
      qed
    qed
    show ?thesis using len each cnt by blast
  qed
qed

section \<open>One pick\<close>

lemma pickCard_open:
  assumes "rounds s \<noteq> []" and "r = last (rounds s)"
    and "a = getActivePackIndex (currentTurn s)" and "0 \<le> a" and "a < int (length (packs r))"
    and "removeFromOthers R k a 0
           ((packs r)[nat a := (packs r ! nat a)\<lparr>cards := fst (splice1 (cards (packs r ! nat a)) i)\<rparr>])
         = ((qs, c), k1)"
    and "pc = (case snd (splice1 (cards (packs r ! nat a)) i) of [] \<Rightarrow> None | x # _ \<Rightarrow> Some x)"
    and "e = \<lparr>roundNo = currentRound s, turnNo = currentTurn s, packIndex = a, picked = pc,
              removedCounts = c\<rparr>"
    and "rs = butlast (rounds s) @ [r\<lparr>packs := qs\<rparr>]"
  shows "pickCard R k s i =
     (if currentTurn s + 1 > 12 then
        (if currentRound s < 6 then
           Inr (DraftState (masterCards s)
                  (rs @ [fst (createRound R k1 (currentRound s + 1) (masterCards s))])
                  (currentRound s + 1) 1 (picks s @ [pc]) (pickLog s @ [e]) (isComplete s) (Some s),
                snd (createRound R k1 (currentRound s + 1) (masterCards s)))
         else Inr (DraftState (masterCards s) rs (currentRound s) (currentTurn s + 1)
                     (picks s @ [pc]) (pickLog s @ [e]) True (Some s), k1))
      else Inr (DraftState (masterCards s) rs (currentRound s) (currentTurn s + 1)
                  (picks s @ [pc]) (pickLog s @ [e]) (isComplete s) (Some s), k1))"
  using assms by (simp add: pickCard_def deepClone_id Let_def split_beta)

lemma pickCard_TypeError:
  "rounds s = [] \<or> getActivePackIndex (currentTurn s) < 0 \<or>
   int (length (packs (last (rounds s)))) \<le> getActivePackIndex (currentTurn s) \<Longrightarrow>
   pickCard R k s i = Inl TypeError"
  by (auto simp add: pickCard_def deepClone_id Let_def)

lemma createRound_shape:
  "12 \<le> length pool \<Longrightarrow> roundShape 12 (fst (createRound R k rn pool))"
  using createRound_packs[of R k rn pool] by (simp add: roundShape_def)


lemma getActivePackIndex_nat:
  "getActivePackIndex (int t + 1) = int (t mod 6)"
proof (cases "t = 0")
  case True
  then show ?thesis by (simp add: getActivePackIndex_def smod_int_alt_def)
next
  case False
  then have "sgn (int t) = 1" by simp
  then show ?thesis
    by (simp add: getActivePackIndex_def smod_int_alt_def zmod_int)
qed

lemma splice1_length_valid:
  "0 \<le> i \<Longrightarrow> i < int (length xs) \<Longrightarrow> length (fst (splice1 xs i)) = length xs - 1"
  by (auto simp: splice1_def spliceStart_def Let_def min_def)

lemma splice1_picked_valid:
  "0 \<le> i \<Longrightarrow> i < int (length xs) \<Longrightarrow> snd (splice1 xs i) = [xs ! nat i]"
proof -
  assume a: "0 \<le> i" "i < int (length xs)"
  then have n: "nat i < length xs" by simp
  have "splice1 xs (int (nat i)) = (take (nat i) xs @ drop (Suc (nat i)) xs, [xs ! nat i])"
    using n by (rule splice1_valid)
  then show ?thesis using a by simp
qed

lemma count_others:
  assumes "a < (6::nat)"
  shows "length [j \<leftarrow> [0..<6]. j \<noteq> a] = 5"
proof -
  have "a = 0 \<or> a = 1 \<or> a = 2 \<or> a = 3 \<or> a = 4 \<or> a = 5" using assms by arith
  moreover have "[0..<6] = [0, 1, 2, 3, 4, 5::nat]" by (simp add: upt_rec)
  ultimately show ?thesis by auto
qed

lemma removeFromOthers_length:
  "removeFromOthers R k a i ps = ((qs, c), k') \<Longrightarrow> length qs = length ps"
  using removeFromOthers_props by blast

lemma removeFromOthers_unchanged:
  "removeFromOthers R k a i ps = ((qs, c), k') \<Longrightarrow> j < length ps \<Longrightarrow>
   int (i + j) = a \<or> cards (ps ! j) = [] \<Longrightarrow> qs ! j = ps ! j"
  using removeFromOthers_props by blast

lemma removeFromOthers_removed:
  "removeFromOthers R k a i ps = ((qs, c), k') \<Longrightarrow> j < length ps \<Longrightarrow>
   int (i + j) \<noteq> a \<Longrightarrow> cards (ps ! j) \<noteq> [] \<Longrightarrow>
   \<exists>k1. qs ! j = (ps ! j)\<lparr>cards := fst (splice1 (cards (ps ! j)) (spliceArg (fst (chooseRemoveIdx R k1 (cards (ps ! j))))))\<rparr>"
  using removeFromOthers_props by blast

lemma removeFromOthers_count:
  "removeFromOthers R k a i ps = ((qs, c), k') \<Longrightarrow>
   c = length [j \<leftarrow> [0..<length ps]. int (i + j) \<noteq> a \<and> cards (ps ! j) \<noteq> []]"
  using removeFromOthers_props by blast

lemma pick_round_shape:
  assumes shape: "roundShape (Suc m) r"
    and a: "a < 6"
    and i: "0 \<le> i" "i < int (Suc m)"
    and rm: "removeFromOthers R k (int a) 0
           ((packs r)[a := (packs r ! a)\<lparr>cards := fst (splice1 (cards (packs r ! a)) i)\<rparr>])
         = ((qs, c), k1)"
  shows "roundShape m (r\<lparr>packs := qs\<rparr>) \<and> c = 5"
proof -
  let ?ps = "(packs r)[a := (packs r ! a)\<lparr>cards := fst (splice1 (cards (packs r ! a)) i)\<rparr>]"
  have len: "length (packs r) = 6" and all: "\<forall>p \<in> set (packs r). length (cards p) = Suc m"
    using shape by (simp_all add: roundShape_def)
  have lps: "length ?ps = 6" using len by simp
  have each0: "\<And>j. j < 6 \<Longrightarrow> length (cards (packs r ! j)) = Suc m"
    using len all by simp
  have act: "length (cards (?ps ! a)) = m"
    using a len each0[of a] i by (simp add: splice1_length_valid)
  have oth: "\<And>j. j < 6 \<Longrightarrow> j \<noteq> a \<Longrightarrow> ?ps ! j = packs r ! j" by simp
  have lq: "length qs = 6" using removeFromOthers_length[OF rm] lps by simp
  have each: "\<And>j. j < 6 \<Longrightarrow> length (cards (qs ! j)) = m"
  proof -
    fix j :: nat assume j: "j < 6"
    show "length (cards (qs ! j)) = m"
    proof (cases "j = a")
      case True
      have "j < length ?ps" using j lps by simp
      moreover have "int (0 + j) = int a \<or> cards (?ps ! j) = []" using True by simp
      ultimately have "qs ! j = ?ps ! j" by (rule removeFromOthers_unchanged[OF rm])
      then show ?thesis using act True by simp
    next
      case False
      have cj: "length (cards (?ps ! j)) = Suc m" using oth[OF j False] each0[OF j] by simp
      then have ne: "cards (?ps ! j) \<noteq> []" by auto
      have jl: "j < length ?ps" using j lps by simp
      have na: "int (0 + j) \<noteq> int a" using False by simp
      obtain k2 where q: "qs ! j = (?ps ! j)\<lparr>cards := fst (splice1 (cards (?ps ! j))
            (spliceArg (fst (chooseRemoveIdx R k2 (cards (?ps ! j))))))\<rparr>"
        using removeFromOthers_removed[OF rm jl na ne] by blast
      have v: "0 \<le> spliceArg (fst (chooseRemoveIdx R k2 (cards (?ps ! j)))) \<and>
               spliceArg (fst (chooseRemoveIdx R k2 (cards (?ps ! j)))) < int (length (cards (?ps ! j)))"
        using chooseRemoveIdx_valid[OF ne] .
      show ?thesis using q v cj by (simp add: splice1_length_valid)
    qed
  qed
  have "\<forall>p \<in> set qs. length (cards p) = m"
    using each lq by (auto simp: in_set_conv_nth)
  then have sh: "roundShape m (r\<lparr>packs := qs\<rparr>)" using lq by (simp add: roundShape_def)
  have "[j \<leftarrow> [0..<length ?ps]. int (0 + j) \<noteq> int a \<and> cards (?ps ! j) \<noteq> []] = [j \<leftarrow> [0..<6]. j \<noteq> a]"
  proof (unfold lps, rule filter_cong[OF refl])
    fix j assume "j \<in> set [0..<6]"
    then have j: "j < 6" by simp
    show "(int (0 + j) \<noteq> int a \<and> cards (?ps ! j) \<noteq> []) = (j \<noteq> a)"
    proof (cases "j = a")
      case True then show ?thesis by simp
    next
      case False
      have "length (cards (?ps ! j)) = Suc m" using oth[OF j False] each0[OF j] by simp
      then have "cards (?ps ! j) \<noteq> []" by auto
      then show ?thesis using False by simp
    qed
  qed
  then have "c = 5" using removeFromOthers_count[OF rm] count_others[OF a] by simp
  then show ?thesis using sh by simp
qed


lemma draftAt_step:
  assumes inv: "draftAt pool n s" and n: "n < 72" and pool: "12 \<le> length pool"
    and i: "0 \<le> i" "i < int (12 - n mod 12)"
  shows "\<exists>s' k'. pickCard R k s i = Inr (s', k') \<and> draftAt pool (Suc n) s' \<and>
           removedCounts (last (pickLog s')) = 5"
proof -
  define t where "t = n mod 12"
  define d where "d = n div 12"
  define r where "r = last (rounds s)"
  define a where "a = t mod 6"
  define m where "m = 11 - t"
  have t: "t < 12" by (simp add: t_def)
  have d: "d < 6" using n by (simp add: d_def)
  have mc: "masterCards s = pool" and lp: "length (picks s) = n" and ll: "length (pickLog s) = n"
    and nc: "\<not> isComplete s" and cr: "currentRound s = int d + 1"
    and ct: "currentTurn s = int t + 1" and lr: "length (rounds s) = d + 1"
    and sh: "roundShape (12 - t) r" and old: "\<forall>j < d. roundShape 0 (rounds s ! j)"
    using inv n by (simp_all add: draftAt_def t_def d_def r_def)
  have ne: "rounds s \<noteq> []" using lr by auto
  have ga: "getActivePackIndex (currentTurn s) = int a"
    by (simp add: ct a_def getActivePackIndex_nat)
  have a6: "a < 6" by (simp add: a_def)
  have "12 - t = Suc m" using t by (simp add: m_def)
  then have sh': "roundShape (Suc m) r" using sh by simp
  then have len6: "length (packs r) = 6" by (simp add: roundShape_def)
  have i': "i < int (Suc m)" using i(2) t by (simp add: m_def t_def)
  let ?ps = "(packs r)[a := (packs r ! a)\<lparr>cards := fst (splice1 (cards (packs r ! a)) i)\<rparr>]"
  obtain qs c k1 where rm: "removeFromOthers R k (int a) 0 ?ps = ((qs, c), k1)"
    by (metis prod.exhaust)
  from pick_round_shape[OF sh' a6 i(1) i' rm]
  have shq: "roundShape m (r\<lparr>packs := qs\<rparr>)" and c5: "c = 5" by simp_all
  define pc where "pc = (case snd (splice1 (cards (packs r ! nat (int a))) i) of [] \<Rightarrow> None | x # _ \<Rightarrow> Some x)"
  define e where "e = \<lparr>roundNo = currentRound s, turnNo = currentTurn s, packIndex = int a,
     picked = pc, removedCounts = c\<rparr>"
  define rs where "rs = butlast (rounds s) @ [r\<lparr>packs := qs\<rparr>]"
  have rm': "removeFromOthers R k (int a) 0
           ((packs r)[nat (int a) := (packs r ! nat (int a))\<lparr>cards := fst (splice1 (cards (packs r ! nat (int a))) i)\<rparr>])
         = ((qs, c), k1)" using rm by simp
  have a0: "0 \<le> int a" by simp
  have al: "int a < int (length (packs r))" using a6 len6 by simp
  note opened = pickCard_open[OF ne r_def ga[symmetric] a0 al rm' pc_def e_def rs_def, of ]
  have lrs: "length rs = d + 1" using lr by (simp add: rs_def)
  have last_rs: "last rs = r\<lparr>packs := qs\<rparr>" by (simp add: rs_def)
  have nth_rs: "\<And>j. j < d \<Longrightarrow> rs ! j = rounds s ! j"
    using lr by (simp add: rs_def nth_append nth_butlast)
  have nth_d: "rs ! d = r\<lparr>packs := qs\<rparr>"
    using lr by (simp add: rs_def nth_append)
  have le: "removedCounts (last (pickLog s @ [e])) = 5" by (simp add: e_def c5)
  have lgs: "map roundNo (pickLog s) = map (\<lambda>j. int (j div 12) + 1) [0..<n]"
    using inv by (simp add: draftAt_def)
  have lgm: "map roundNo (pickLog s @ [e]) = map (\<lambda>j. int (j div 12) + 1) [0..<Suc n]"
    using lgs cr by (simp add: e_def d_def)
  show ?thesis
  proof (cases "t = 11")
    case False
    then have t11: "t < 11" using t by simp
    have div: "Suc n div 12 = d" and md: "Suc n mod 12 = Suc t"
      using t11 by (simp_all add: d_def t_def div_Suc mod_Suc)
    have res: "pickCard R k s i = Inr (DraftState (masterCards s) rs (currentRound s) (currentTurn s + 1)
                  (picks s @ [pc]) (pickLog s @ [e]) (isComplete s) (Some s), k1)"
      using opened t11 ct by simp
    have m': "m = 12 - Suc t" by (simp add: m_def)
    have "n = 12 * d + t" by (simp add: d_def t_def)
    then have lt: "Suc n < 72" using d t11 by arith
    have "draftAt pool (Suc n) (DraftState (masterCards s) rs (currentRound s) (currentTurn s + 1)
                  (picks s @ [pc]) (pickLog s @ [e]) (isComplete s) (Some s))"
      unfolding draftAt_def
      using lt t11 mc lp ll nc cr ct lrs last_rs nth_rs shq old div md m' lgm
      by (simp add: d_def[symmetric])
    then show ?thesis using res le by simp
  next
    case True
    then have m0: "m = 0" by (simp add: m_def)
    have div: "Suc n div 12 = Suc d" and md: "Suc n mod 12 = 0"
      using True by (simp_all add: d_def t_def div_Suc mod_Suc)
    have olds: "\<forall>j < Suc d. roundShape 0 (rs ! j)"
    proof (intro allI impI)
      fix j assume "j < Suc d"
      then consider "j < d" | "j = d" by linarith
      then show "roundShape 0 (rs ! j)"
        using old nth_rs nth_d shq m0 by cases simp_all
    qed
    show ?thesis
    proof (cases "d < 5")
      case True
      let ?nr = "fst (createRound R k1 (currentRound s + 1) (masterCards s))"
      let ?k2 = "snd (createRound R k1 (currentRound s + 1) (masterCards s))"
      have res: "pickCard R k s i = Inr (DraftState (masterCards s) (rs @ [?nr])
                  (currentRound s + 1) 1 (picks s @ [pc]) (pickLog s @ [e]) (isComplete s) (Some s), ?k2)"
        using opened \<open>t = 11\<close> ct cr True by simp
      have shn: "roundShape 12 ?nr" using createRound_shape[OF pool] mc by simp
      have "n = 12 * d + t" by (simp add: d_def t_def)
      then have lt: "Suc n < 72" using True \<open>t = 11\<close> by arith
      have olds': "\<forall>j < Suc d. roundShape 0 ((rs @ [?nr]) ! j)"
        using olds lrs by (simp add: nth_append)
      have "draftAt pool (Suc n) (DraftState (masterCards s) (rs @ [?nr])
                  (currentRound s + 1) 1 (picks s @ [pc]) (pickLog s @ [e]) (isComplete s) (Some s))"
        unfolding draftAt_def
        using lt mc lp ll nc cr lrs shn olds' div md lgm
        by simp
      then show ?thesis using res le by simp
    next
      case False
      then have d5: "d = 5" using d by simp
      have res: "pickCard R k s i = Inr (DraftState (masterCards s) rs (currentRound s) (currentTurn s + 1)
                     (picks s @ [pc]) (pickLog s @ [e]) True (Some s), k1)"
        using opened \<open>t = 11\<close> ct cr d5 by simp
      have "n = 12 * d + t" by (simp add: d_def t_def)
      then have n71: "Suc n = 72" using d5 \<open>t = 11\<close> by arith
      have "draftAt pool (Suc n) (DraftState (masterCards s) rs (currentRound s) (currentTurn s + 1)
                     (picks s @ [pc]) (pickLog s @ [e]) True (Some s))"
        unfolding draftAt_def
        using n71 mc lp ll lrs olds d5 cr ct \<open>t = 11\<close> lgm
        by simp
      then show ?thesis using res le by simp
    qed
  qed
qed

section \<open>Sequences of picks\<close>

lemma createNewDraft_draftAt:
  assumes "12 \<le> length pool" and "createNewDraft R k pool = (s0, k0)"
  shows "draftAt pool 0 s0"
proof -
  have s0: "s0 = DraftState pool [fst (createRound R k 1 pool)] 1 1 [] [] False None"
    using assms(2) by (simp add: createNewDraft_def split_beta)
  show ?thesis using createRound_shape[OF assms(1), of R k 1]
    by (simp add: s0 draftAt_def)
qed

lemma draftAt_validPick:
  assumes "draftAt pool n s"
  shows "validPick s i = (n < 72 \<and> 0 \<le> i \<and> i < int (12 - n mod 12))"
proof (cases "n < 72")
  case False
  then have "isComplete s" using assms by (simp add: draftAt_def)
  then show ?thesis using False by (simp add: validPick_def)
next
  case True
  define t where "t = n mod 12"
  define r where "r = last (rounds s)"
  have nc: "\<not> isComplete s" and ct: "currentTurn s = int t + 1"
    and lr: "length (rounds s) = n div 12 + 1" and sh: "roundShape (12 - t) r"
    using assms True by (simp_all add: draftAt_def t_def r_def)
  have ne: "rounds s \<noteq> []" using lr by auto
  have ga: "getActivePackIndex (currentTurn s) = int (t mod 6)"
    by (simp add: ct getActivePackIndex_nat)
  have len6: "length (packs r) = 6" using sh by (simp add: roundShape_def)
  have "packs r ! (t mod 6) \<in> set (packs r)" using len6 by simp
  then have "length (cards (packs r ! (t mod 6))) = 12 - t" using sh by (simp add: roundShape_def)
  then show ?thesis using True nc ne ga len6
    by (simp add: validPick_def r_def[symmetric] t_def[symmetric])
qed

lemma pickAll_draftAt:
  "draftAt pool n s \<Longrightarrow> 12 \<le> length pool \<Longrightarrow> pickAll R k s is = Some (s', k') \<Longrightarrow>
   draftAt pool (n + length is) s'"
proof (induction "is" arbitrary: n s k)
  case Nil
  then show ?case by simp
next
  case (Cons i "is")
  have v: "validPick s i" using Cons.prems(3) by (simp split: if_splits)
  then have n: "n < 72" and i: "0 \<le> i" "i < int (12 - n mod 12)"
    using draftAt_validPick[OF Cons.prems(1)] by simp_all
  from draftAt_step[OF Cons.prems(1) n Cons.prems(2) i, of R k]
  obtain s1 k1 where p: "pickCard R k s i = Inr (s1, k1)" and d: "draftAt pool (Suc n) s1"
    by blast
  have "pickAll R k1 s1 is = Some (s', k')" using Cons.prems(3) v p by simp
  from Cons.IH[OF d Cons.prems(2) this] show ?case by simp
qed

lemma pickAll_zeros:
  "draftAt pool n s \<Longrightarrow> 12 \<le> length pool \<Longrightarrow> n + m \<le> 72 \<Longrightarrow>
   \<exists>s' k'. pickAll R k s (replicate m 0) = Some (s', k')"
proof (induction m arbitrary: n s k)
  case 0
  then show ?case by simp
next
  case (Suc m)
  have n: "n < 72" using Suc.prems(3) by simp
  have "n mod 12 < 12" by simp
  then have i: "(0::int) \<le> 0" "0 < int (12 - n mod 12)" by simp_all
  have v: "validPick s 0" using draftAt_validPick[OF Suc.prems(1), of 0] n i by simp
  from draftAt_step[OF Suc.prems(1) n Suc.prems(2) i, of R k]
  obtain s1 k1 where p: "pickCard R k s 0 = Inr (s1, k1)" and d: "draftAt pool (Suc n) s1"
    by blast
  have "Suc n + m \<le> 72" using Suc.prems(3) by simp
  from Suc.IH[OF d Suc.prems(2) this, of k1]
  show ?case using v p by simp
qed

text \<open>
  Claim C3. For a master pool of at least 12 cards and any random source: the 6 packs of
  the first round start with 12 cards each; after any sequence of \<open>12 * m\<close> valid picks
  from initialization every pack of the \<open>m\<close> rounds played has 0 cards and, unless all 6
  rounds are played, the 6 packs of the round that starts hold 12 cards each; after 72
  valid picks the draft is complete with 72 picks; and 72 valid picks exist (always
  picking index 0).
\<close>

theorem rounds_exhaust_packs:
  assumes "12 \<le> length pool" and "createNewDraft R k pool = (s0, k0)"
  shows "roundShape 12 (last (rounds s0)) \<and>
         (\<forall>is s k'. pickAll R k0 s0 is = Some (s, k') \<longrightarrow>
            (\<forall>m. length is = 12 * m \<longrightarrow>
               (\<forall>j < m. roundShape 0 (rounds s ! j)) \<and>
               (m < 6 \<longrightarrow> roundShape 12 (last (rounds s)))) \<and>
            (length is = 72 \<longrightarrow> isComplete s \<and> length (picks s) = 72)) \<and>
         (\<exists>s k'. pickAll R k0 s0 (replicate 72 0) = Some (s, k'))"
proof -
  have d0: "draftAt pool 0 s0" using assms by (rule createNewDraft_draftAt)
  have a: "roundShape 12 (last (rounds s0))" using d0 by (simp add: draftAt_def)
  have b: "\<forall>is s k'. pickAll R k0 s0 is = Some (s, k') \<longrightarrow>
            (\<forall>m. length is = 12 * m \<longrightarrow>
               (\<forall>j < m. roundShape 0 (rounds s ! j)) \<and>
               (m < 6 \<longrightarrow> roundShape 12 (last (rounds s)))) \<and>
            (length is = 72 \<longrightarrow> isComplete s \<and> length (picks s) = 72)"
  proof (intro allI impI)
    fix "is" s k' assume run: "pickAll R k0 s0 is = Some (s, k')"
    from pickAll_draftAt[OF d0 assms(1) run] have d: "draftAt pool (length is) s" by simp
    have c1: "\<forall>m. length is = 12 * m \<longrightarrow>
               (\<forall>j < m. roundShape 0 (rounds s ! j)) \<and>
               (m < 6 \<longrightarrow> roundShape 12 (last (rounds s)))"
    proof (intro allI impI)
      fix m assume l: "length is = 12 * m"
      then have dm: "draftAt pool (12 * m) s" using d by simp
      then have m6: "m \<le> 6" by (simp add: draftAt_def)
      show "(\<forall>j < m. roundShape 0 (rounds s ! j)) \<and> (m < 6 \<longrightarrow> roundShape 12 (last (rounds s)))"
      proof (cases "m < 6")
        case True
        then have "12 * m < 72" by simp
        then show ?thesis using dm by (simp add: draftAt_def)
      next
        case False
        then have "m = 6" using m6 by simp
        then show ?thesis using dm by (simp add: draftAt_def)
      qed
    qed
    have c2: "length is = 72 \<longrightarrow> isComplete s \<and> length (picks s) = 72"
      using d by (auto simp add: draftAt_def)
    show "(\<forall>m. length is = 12 * m \<longrightarrow>
               (\<forall>j < m. roundShape 0 (rounds s ! j)) \<and>
               (m < 6 \<longrightarrow> roundShape 12 (last (rounds s)))) \<and>
            (length is = 72 \<longrightarrow> isComplete s \<and> length (picks s) = 72)"
      using c1 c2 by blast
  qed
  have c: "\<exists>s k'. pickAll R k0 s0 (replicate 72 0) = Some (s, k')"
    using pickAll_zeros[OF d0 assms(1), of 72 R k0] by simp
  show ?thesis using a b c by blast
qed

text \<open>Claim C3 at a pool of 12 cards: the 72 picks of index 0 complete the draft.\<close>

theorem rounds_exhaust_packs_witness:
  "12 \<le> length pool12 \<and>
   roundShape 12 (last (rounds (fst (createNewDraft halfSource 0 pool12)))) \<and>
   isComplete (fst (the (pickAll halfSource (snd (createNewDraft halfSource 0 pool12))
      (fst (createNewDraft halfSource 0 pool12)) (replicate 72 0)))) \<and>
   length (picks (fst (the (pickAll halfSource (snd (createNewDraft halfSource 0 pool12))
      (fst (createNewDraft halfSource 0 pool12)) (replicate 72 0))))) = 72"
proof -
  let ?s0 = "fst (createNewDraft halfSource 0 pool12)"
  let ?k0 = "snd (createNewDraft halfSource 0 pool12)"
  have len: "12 \<le> length pool12" by (simp add: pool12_def pool3_def)
  have cr: "createNewDraft halfSource 0 pool12 = (?s0, ?k0)" by simp
  note main = rounds_exhaust_packs[OF len cr]
  from main obtain s k' where run: "pickAll halfSource ?k0 ?s0 (replicate 72 0) = Some (s, k')"
    by blast
  from main have "pickAll halfSource ?k0 ?s0 (replicate 72 0) = Some (s, k') \<longrightarrow>
      (length (replicate 72 (0::int)) = 72 \<longrightarrow> isComplete s \<and> length (picks s) = 72)"
    by blast
  then have "isComplete s \<and> length (picks s) = 72" using run by simp
  moreover have "roundShape 12 (last (rounds ?s0))" using main by blast
  ultimately show ?thesis using len run by simp
qed

section \<open>Pick and undo\<close>

lemma pickCard_total:
  assumes ne: "rounds s \<noteq> []"
    and a0: "0 \<le> getActivePackIndex (currentTurn s)"
    and al: "getActivePackIndex (currentTurn s) < int (length (packs (last (rounds s))))"
  shows "\<exists>s' k'. pickCard R k s i = Inr (s', k') \<and> undoBuffer s' = Some s \<and>
           masterCards s' = masterCards s \<and>
           picks s' = picks s @
             [case snd (splice1 (cards (packs (last (rounds s)) !
                  nat (getActivePackIndex (currentTurn s)))) i) of
                [] \<Rightarrow> None | x # _ \<Rightarrow> Some x] \<and>
           length (pickLog s') = Suc (length (pickLog s)) \<and>
           (currentTurn s' = currentTurn s + 1 \<or>
            currentTurn s' = 1 \<and> currentRound s' = currentRound s + 1)"
proof -
  define r where "r = last (rounds s)"
  define a where "a = getActivePackIndex (currentTurn s)"
  obtain qs c k1 where rm: "removeFromOthers R k a 0
           ((packs r)[nat a := (packs r ! nat a)\<lparr>cards := fst (splice1 (cards (packs r ! nat a)) i)\<rparr>])
         = ((qs, c), k1)"
    by (metis prod.exhaust)
  have a0': "0 \<le> a" and al': "a < int (length (packs r))"
    using a0 al by (simp_all add: a_def r_def)
  note opened = pickCard_open[OF ne r_def a_def a0' al' rm refl refl refl]
  show ?thesis unfolding opened r_def[symmetric] a_def[symmetric] by simp
qed

section \<open>The example draft\<close>

lemma pool12_length: "length pool12 = 12"
  by (simp add: pool12_def pool3_def)

lemma freshDraft_at: "draftAt pool12 0 freshDraft"
proof -
  have "12 \<le> length pool12" by (simp add: pool12_length)
  moreover have "createNewDraft halfSource 0 pool12 = (freshDraft, freshCounter)"
    by (simp add: freshDraft_def freshCounter_def)
  ultimately show ?thesis by (rule createNewDraft_draftAt)
qed

lemma pickedState_eq:
  "pickCard R k s i = Inr (s', k') \<Longrightarrow> pickedState R k s i = s' \<and> pickedCounter R k s i = k'"
  by (simp add: pickedState_def pickedCounter_def)

lemma onePickDraft_at:
  "pickCard halfSource freshCounter freshDraft 0 = Inr (onePickDraft, onePickCounter) \<and>
   draftAt pool12 1 onePickDraft"
proof -
  have "12 \<le> length pool12" by (simp add: pool12_length)
  from draftAt_step[OF freshDraft_at _ this, of 0 halfSource freshCounter]
  obtain s' k' where p: "pickCard halfSource freshCounter freshDraft 0 = Inr (s', k')"
    and d: "draftAt pool12 (Suc 0) s'" by auto
  from pickedState_eq[OF p] have "onePickDraft = s'" "onePickCounter = k'"
    by (simp_all add: onePickDraft_def onePickCounter_def)
  then show ?thesis using p d by simp
qed

lemma twoPicksDraft_at:
  "pickCard halfSource onePickCounter onePickDraft 0 = Inr (twoPicksDraft, pickedCounter halfSource onePickCounter onePickDraft 0) \<and>
   draftAt pool12 2 twoPicksDraft"
proof -
  have "12 \<le> length pool12" by (simp add: pool12_length)
  from draftAt_step[OF conjunct2[OF onePickDraft_at] _ this, of 0 halfSource onePickCounter]
  obtain s' k' where p: "pickCard halfSource onePickCounter onePickDraft 0 = Inr (s', k')"
    and d: "draftAt pool12 (Suc 1) s'" by auto
  from pickedState_eq[OF p] have "twoPicksDraft = s'" "pickedCounter halfSource onePickCounter onePickDraft 0 = k'"
    by (simp_all add: twoPicksDraft_def)
  then show ?thesis using p d by (simp add: numeral_2_eq_2)
qed

lemma finishedDraft_at: "draftAt pool12 72 finishedDraft"
proof -
  have l: "12 \<le> length pool12" by (simp add: pool12_length)
  from pickAll_zeros[OF freshDraft_at l, of 72 halfSource freshCounter]
  obtain s' k' where run: "pickAll halfSource freshCounter freshDraft (replicate 72 0) = Some (s', k')"
    by auto
  from pickAll_draftAt[OF freshDraft_at l run] have "draftAt pool12 72 s'" by simp
  then show ?thesis using run by (simp add: finishedDraft_def)
qed

section \<open>Properties of a pick\<close>

text \<open>
  Claim C5. For every state that is not complete and every valid index into its active
  pack, the pick succeeds and undoing the state it returns gives back exactly the state
  before the pick, field for field (the undo buffer of that state included).
\<close>

theorem pick_then_undo_restores:
  "validPick s i \<Longrightarrow>
   \<exists>s' k'. pickCard R k s i = Inr (s', k') \<and> undoLastPick s' = Some s"
proof -
  assume v: "validPick s i"
  then have "rounds s \<noteq> []" "0 \<le> getActivePackIndex (currentTurn s)"
    "getActivePackIndex (currentTurn s) < int (length (packs (last (rounds s))))"
    by (simp_all add: validPick_def)
  from pickCard_total[OF this, of R k i] obtain s' k' where
    "pickCard R k s i = Inr (s', k')" "undoBuffer s' = Some s" by blast
  then show ?thesis by (auto simp: undoLastPick_def deepClone_id)
qed

text \<open>Claim C5 on the state after one pick, whose undo buffer is not empty.\<close>

theorem pick_then_undo_restores_witness:
  "validPick onePickDraft 0 \<and> undoBuffer onePickDraft \<noteq> None \<and>
   undoLastPick (pickedState halfSource onePickCounter onePickDraft 0) = Some onePickDraft"
proof -
  have v: "validPick onePickDraft 0"
    using draftAt_validPick[OF conjunct2[OF onePickDraft_at], of 0] by simp
  from pick_then_undo_restores[OF v, of halfSource onePickCounter]
  obtain s' k' where p: "pickCard halfSource onePickCounter onePickDraft 0 = Inr (s', k')"
    and u: "undoLastPick s' = Some onePickDraft" by blast
  have "pickedState halfSource onePickCounter onePickDraft 0 = s'"
    using pickedState_eq[OF p] by simp
  moreover have "undoBuffer onePickDraft \<noteq> None"
  proof -
    have "rounds freshDraft \<noteq> []" "0 \<le> getActivePackIndex (currentTurn freshDraft)"
      "getActivePackIndex (currentTurn freshDraft) < int (length (packs (last (rounds freshDraft))))"
      using draftAt_validPick[OF freshDraft_at, of 0] by (simp_all add: validPick_def)
    from pickCard_total[OF this, of halfSource freshCounter 0]
    show ?thesis using onePickDraft_at by auto
  qed
  ultimately show ?thesis using v u by simp
qed

text \<open>
  Claim C9. For a freshly initialized draft over a pool of at least 12 cards (round 1,
  turn 1, active pack 0, all packs at 12 cards), every valid pick succeeds and yields a
  state in which all 6 packs of the round, the active one and the other 5, hold exactly
  11 cards, the event log has length 1 and its entry has \<open>removedCounts = 5\<close>; index 0
  is a valid pick.
\<close>

theorem first_pick_counts:
  assumes "12 \<le> length pool" and "createNewDraft R k pool = (s0, k0)"
  shows "currentRound s0 = 1 \<and> currentTurn s0 = 1 \<and> getActivePackIndex (currentTurn s0) = 0 \<and>
         roundShape 12 (last (rounds s0)) \<and> validPick s0 0 \<and>
         (\<forall>i. validPick s0 i \<longrightarrow>
            (\<exists>s1 k1. pickCard R k0 s0 i = Inr (s1, k1) \<and>
               length (packs (last (rounds s1))) = 6 \<and>
               (\<forall>j < 6. length (cards (packs (last (rounds s1)) ! j)) = 11) \<and>
               length (pickLog s1) = 1 \<and> removedCounts (pickLog s1 ! 0) = 5))"
proof -
  have d0: "draftAt pool 0 s0" using assms by (rule createNewDraft_draftAt)
  then have a: "currentRound s0 = 1" "currentTurn s0 = 1" "roundShape 12 (last (rounds s0))"
    by (simp_all add: draftAt_def)
  have b: "getActivePackIndex (currentTurn s0) = 0"
    using a(2) getActivePackIndex_nat[of 0] by simp
  have c: "validPick s0 0" using draftAt_validPick[OF d0, of 0] by simp
  have e: "\<forall>i. validPick s0 i \<longrightarrow>
            (\<exists>s1 k1. pickCard R k0 s0 i = Inr (s1, k1) \<and>
               length (packs (last (rounds s1))) = 6 \<and>
               (\<forall>j < 6. length (cards (packs (last (rounds s1)) ! j)) = 11) \<and>
               length (pickLog s1) = 1 \<and> removedCounts (pickLog s1 ! 0) = 5)"
  proof (intro allI impI)
    fix i assume "validPick s0 i"
    then have i: "0 \<le> i" "i < int (12 - 0 mod 12)"
      using draftAt_validPick[OF d0, of i] by simp_all
    from draftAt_step[OF d0 _ assms(1) i, of R k0]
    obtain s1 k1 where p: "pickCard R k0 s0 i = Inr (s1, k1)" and d1: "draftAt pool (Suc 0) s1"
      and rc: "removedCounts (last (pickLog s1)) = 5" by auto
    have sh: "roundShape 11 (last (rounds s1))" and ll: "length (pickLog s1) = 1"
      using d1 by (simp_all add: draftAt_def)
    have l6: "length (packs (last (rounds s1))) = 6" using sh by (simp add: roundShape_def)
    have each: "\<forall>j < 6. length (cards (packs (last (rounds s1)) ! j)) = 11"
      using sh by (simp add: roundShape_def)
    have "pickLog s1 \<noteq> []" using ll by auto
    then have "last (pickLog s1) = pickLog s1 ! 0" using ll by (simp add: last_conv_nth)
    then have "removedCounts (pickLog s1 ! 0) = 5" using rc by simp
    then show "\<exists>s1 k1. pickCard R k0 s0 i = Inr (s1, k1) \<and>
               length (packs (last (rounds s1))) = 6 \<and>
               (\<forall>j < 6. length (cards (packs (last (rounds s1)) ! j)) = 11) \<and>
               length (pickLog s1) = 1 \<and> removedCounts (pickLog s1 ! 0) = 5"
      using p l6 each ll by blast
  qed
  show ?thesis using a b c e by blast
qed

text \<open>Claim C9 on the example draft over 12 cards, picking index 0.\<close>

theorem first_pick_counts_witness:
  "12 \<le> length pool12 \<and> validPick freshDraft 0 \<and>
   length (cards (packs (last (rounds onePickDraft)) ! 0)) = 11 \<and>
   length (cards (packs (last (rounds onePickDraft)) ! 5)) = 11 \<and>
   length (pickLog onePickDraft) = 1 \<and> removedCounts (pickLog onePickDraft ! 0) = 5"
proof -
  have l: "12 \<le> length pool12" by (simp add: pool12_length)
  have c: "createNewDraft halfSource 0 pool12 = (freshDraft, freshCounter)"
    by (simp add: freshDraft_def freshCounter_def)
  note main = first_pick_counts[OF l c]
  have v: "validPick freshDraft 0" using main by blast
  with main obtain s1 k1 where p: "pickCard halfSource freshCounter freshDraft 0 = Inr (s1, k1)"
    and e: "\<forall>j < 6. length (cards (packs (last (rounds s1)) ! j)) = 11"
    and ll: "length (pickLog s1) = 1" "removedCounts (pickLog s1 ! 0) = 5" by blast
  have "onePickDraft = s1" using pickedState_eq[OF p] by (simp add: onePickDraft_def)
  then show ?thesis using l v e ll by simp
qed

section \<open>Picks outside the precondition\<close>

lemma splice1_past_end:
  "int (length xs) \<le> i \<Longrightarrow> splice1 xs i = (xs, [])"
  by (auto simp add: splice1_def spliceStart_def Let_def min_def)

lemma getActivePackIndex_1_13: "getActivePackIndex 1 = 0 \<and> getActivePackIndex 13 = 0"
  using getActivePackIndex_nat[of 0] getActivePackIndex_nat[of 12] by simp

lemma freshDraft_active:
  "rounds freshDraft \<noteq> [] \<and> getActivePackIndex (currentTurn freshDraft) = 0 \<and>
   length (packs (last (rounds freshDraft))) = 6 \<and>
   length (cards (packs (last (rounds freshDraft)) ! 0)) = 12 \<and>
   picks freshDraft = [] \<and> pickLog freshDraft = [] \<and> currentTurn freshDraft = 1 \<and>
   \<not> isComplete freshDraft"
proof -
  note d = freshDraft_at
  have sh: "roundShape 12 (last (rounds freshDraft))" and ct: "currentTurn freshDraft = 1"
    and lr: "length (rounds freshDraft) = 1" and nc: "\<not> isComplete freshDraft"
    and pk: "picks freshDraft = []" and lg: "pickLog freshDraft = []"
    using d by (simp_all add: draftAt_def)
  have l6: "length (packs (last (rounds freshDraft))) = 6" using sh by (simp add: roundShape_def)
  then have "packs (last (rounds freshDraft)) ! 0 \<in> set (packs (last (rounds freshDraft)))" by simp
  then have "length (cards (packs (last (rounds freshDraft)) ! 0)) = 12"
    using sh by (simp add: roundShape_def)
  moreover have "getActivePackIndex (currentTurn freshDraft) = 0"
    using ct getActivePackIndex_nat[of 0] by simp
  moreover have "rounds freshDraft \<noteq> []" using lr by auto
  ultimately show ?thesis using l6 pk lg ct nc by simp
qed

lemma finishedDraft_active:
  "rounds finishedDraft \<noteq> [] \<and> getActivePackIndex (currentTurn finishedDraft) = 0 \<and>
   length (packs (last (rounds finishedDraft))) = 6 \<and>
   cards (packs (last (rounds finishedDraft)) ! 0) = [] \<and>
   length (picks finishedDraft) = 72 \<and> length (pickLog finishedDraft) = 72 \<and>
   currentTurn finishedDraft = 13 \<and> isComplete finishedDraft"
proof -
  note d = finishedDraft_at
  have ct: "currentTurn finishedDraft = 13" and lr: "length (rounds finishedDraft) = 6"
    and c: "isComplete finishedDraft" and sh: "roundShape 0 (rounds finishedDraft ! 5)"
    and pk: "length (picks finishedDraft) = 72" and lg: "length (pickLog finishedDraft) = 72"
    using d by (simp_all add: draftAt_def)
  have ne: "rounds finishedDraft \<noteq> []" using lr by auto
  then have "last (rounds finishedDraft) = rounds finishedDraft ! 5"
    using lr by (simp add: last_conv_nth)
  then have sh': "roundShape 0 (last (rounds finishedDraft))" using sh by simp
  have l6: "length (packs (last (rounds finishedDraft))) = 6" using sh' by (simp add: roundShape_def)
  then have "packs (last (rounds finishedDraft)) ! 0 \<in> set (packs (last (rounds finishedDraft)))" by simp
  then have "cards (packs (last (rounds finishedDraft)) ! 0) = []"
    using sh' by (simp add: roundShape_def)
  moreover have "getActivePackIndex (currentTurn finishedDraft) = 0"
    using ct getActivePackIndex_nat[of 12] by simp
  ultimately show ?thesis using ne l6 pk lg ct c by simp
qed

lemma pickCard_Inr_undo:
  assumes "pickCard R k s i = Inr (s', k')"
  shows "undoBuffer s' = Some s"
proof -
  have ok: "\<not> (rounds s = [] \<or> getActivePackIndex (currentTurn s) < 0 \<or>
     int (length (packs (last (rounds s)))) \<le> getActivePackIndex (currentTurn s))"
    using pickCard_TypeError[of s R k i] assms by auto
  then have "rounds s \<noteq> []" "0 \<le> getActivePackIndex (currentTurn s)"
    "getActivePackIndex (currentTurn s) < int (length (packs (last (rounds s))))" by auto
  from pickCard_total[OF this, of R k i] show ?thesis using assms by auto
qed

text \<open>
  Claim C1, amended. \<^verbatim>\<open>pickCard\<close> does not check its precondition and has no
  \<^verbatim>\<open>InvalidPickIndex\<close> failure. For every state that has a current round with an active
  pack, and every index, also when the state is complete or the index addresses no card,
  the call succeeds and returns a new state: one slot is appended to the picks (the card
  that \<^verbatim>\<open>splice\<close> removed, or an empty slot when it removed none), one event is logged,
  the turn advances, and the state that was passed in is kept, unchanged, as the undo
  buffer. The only failure is the \<^verbatim>\<open>TypeError\<close> of a state without a current round or
  without an active pack.
\<close>

theorem pick_is_unchecked:
  "(rounds s = [] \<or> getActivePackIndex (currentTurn s) < 0 \<or>
    int (length (packs (last (rounds s)))) \<le> getActivePackIndex (currentTurn s) \<longrightarrow>
      pickCard R k s i = Inl TypeError) \<and>
   (rounds s \<noteq> [] \<and> 0 \<le> getActivePackIndex (currentTurn s) \<and>
    getActivePackIndex (currentTurn s) < int (length (packs (last (rounds s)))) \<longrightarrow>
      (\<exists>s' k'. pickCard R k s i = Inr (s', k') \<and> undoBuffer s' = Some s \<and>
         picks s' = picks s @
           [case snd (splice1 (cards (packs (last (rounds s)) !
                nat (getActivePackIndex (currentTurn s)))) i) of
              [] \<Rightarrow> None | x # _ \<Rightarrow> Some x] \<and>
         length (pickLog s') = Suc (length (pickLog s)) \<and>
         (currentTurn s' = currentTurn s + 1 \<or>
          currentTurn s' = 1 \<and> currentRound s' = currentRound s + 1)))"
proof (intro conjI impI)
  assume "rounds s = [] \<or> getActivePackIndex (currentTurn s) < 0 \<or>
    int (length (packs (last (rounds s)))) \<le> getActivePackIndex (currentTurn s)"
  then show "pickCard R k s i = Inl TypeError" by (rule pickCard_TypeError)
next
  assume "rounds s \<noteq> [] \<and> 0 \<le> getActivePackIndex (currentTurn s) \<and>
    getActivePackIndex (currentTurn s) < int (length (packs (last (rounds s))))"
  then have "rounds s \<noteq> []" "0 \<le> getActivePackIndex (currentTurn s)"
    "getActivePackIndex (currentTurn s) < int (length (packs (last (rounds s))))" by auto
  from pickCard_total[OF this, of R k i]
  show "\<exists>s' k'. pickCard R k s i = Inr (s', k') \<and> undoBuffer s' = Some s \<and>
         picks s' = picks s @
           [case snd (splice1 (cards (packs (last (rounds s)) !
                nat (getActivePackIndex (currentTurn s)))) i) of
              [] \<Rightarrow> None | x # _ \<Rightarrow> Some x] \<and>
         length (pickLog s') = Suc (length (pickLog s)) \<and>
         (currentTurn s' = currentTurn s + 1 \<or>
          currentTurn s' = 1 \<and> currentRound s' = currentRound s + 1)"
    by blast
qed

text \<open>
  Claim C1 as stated fails. On the fresh example draft the index 12 addresses no card of
  the active pack, yet the pick succeeds, appends an empty slot to the picks, logs an
  event and advances the turn to 2. On the finished example draft, which is complete, the
  pick of index 0 succeeds as well and leaves 73 picks and 73 events.
\<close>

theorem pick_unchecked_counterexample:
  "\<not> validPick freshDraft 12 \<and>
   \<not> isl (pickCard halfSource freshCounter freshDraft 12) \<and>
   picks (pickedState halfSource freshCounter freshDraft 12) = [None] \<and>
   length (pickLog (pickedState halfSource freshCounter freshDraft 12)) = 1 \<and>
   currentTurn (pickedState halfSource freshCounter freshDraft 12) = 2 \<and>
   isComplete finishedDraft \<and>
   \<not> isl (pickCard halfSource finishedCounter finishedDraft 0) \<and>
   length (picks (pickedState halfSource finishedCounter finishedDraft 0)) = 73 \<and>
   length (pickLog (pickedState halfSource finishedCounter finishedDraft 0)) = 73"
proof -
  note f = freshDraft_active
  have nv: "\<not> validPick freshDraft 12" using f by (simp add: validPick_def getActivePackIndex_1_13)
  have pre: "rounds freshDraft \<noteq> []" "0 \<le> getActivePackIndex (currentTurn freshDraft)"
      "getActivePackIndex (currentTurn freshDraft) < int (length (packs (last (rounds freshDraft))))"
    using f by (simp_all add: getActivePackIndex_1_13)
  from pickCard_total[OF pre, of halfSource freshCounter 12]
  obtain s1 k1 where p1: "pickCard halfSource freshCounter freshDraft 12 = Inr (s1, k1)"
    and pk1: "picks s1 = picks freshDraft @
             [case snd (splice1 (cards (packs (last (rounds freshDraft)) !
                  nat (getActivePackIndex (currentTurn freshDraft)))) 12) of
                [] \<Rightarrow> None | x # _ \<Rightarrow> Some x]"
    and lg1: "length (pickLog s1) = Suc (length (pickLog freshDraft))"
    and t1: "currentTurn s1 = currentTurn freshDraft + 1 \<or>
            currentTurn s1 = 1 \<and> currentRound s1 = currentRound freshDraft + 1"
    by blast
  have sp: "splice1 (cards (packs (last (rounds freshDraft)) ! 0)) 12 =
            (cards (packs (last (rounds freshDraft)) ! 0), [])"
    using f by (intro splice1_past_end) simp
  have a1: "picks s1 = [None]" using pk1 f sp by (simp add: getActivePackIndex_1_13)
  have a2: "length (pickLog s1) = 1" using lg1 f by simp
  have a3: "currentTurn s1 = 2"
  proof -
    define r where "r = last (rounds freshDraft)"
    define a where "a = getActivePackIndex (currentTurn freshDraft)"
    obtain qs c k2 where rm: "removeFromOthers halfSource freshCounter a 0
           ((packs r)[nat a := (packs r ! nat a)\<lparr>cards := fst (splice1 (cards (packs r ! nat a)) 12)\<rparr>])
         = ((qs, c), k2)"
      by (metis prod.exhaust)
    have a0': "0 \<le> a" and al': "a < int (length (packs r))"
      using pre by (simp_all add: a_def r_def)
    note opened = pickCard_open[OF pre(1) r_def a_def a0' al' rm refl refl refl]
    show ?thesis using opened p1 f by (simp add: getActivePackIndex_1_13)
  qed
  have s1: "pickedState halfSource freshCounter freshDraft 12 = s1"
    using pickedState_eq[OF p1] by simp
  note g = finishedDraft_active
  have pre2: "rounds finishedDraft \<noteq> []" "0 \<le> getActivePackIndex (currentTurn finishedDraft)"
      "getActivePackIndex (currentTurn finishedDraft) < int (length (packs (last (rounds finishedDraft))))"
    using g by (simp_all add: getActivePackIndex_1_13)
  from pickCard_total[OF pre2, of halfSource finishedCounter 0]
  obtain s2 k2 where p2: "pickCard halfSource finishedCounter finishedDraft 0 = Inr (s2, k2)"
    and pk2: "picks s2 = picks finishedDraft @
             [case snd (splice1 (cards (packs (last (rounds finishedDraft)) !
                  nat (getActivePackIndex (currentTurn finishedDraft)))) 0) of
                [] \<Rightarrow> None | x # _ \<Rightarrow> Some x]"
    and lg2: "length (pickLog s2) = Suc (length (pickLog finishedDraft))"
    by blast
  have s2: "pickedState halfSource finishedCounter finishedDraft 0 = s2"
    using pickedState_eq[OF p2] by simp
  have b1: "length (picks s2) = 73" using pk2 g by (simp add: getActivePackIndex_1_13)
  have b2: "length (pickLog s2) = 73" using lg2 g by simp
  show ?thesis using nv p1 a1 a2 a3 s1 g p2 s2 b1 b2 by simp
qed

text \<open>
  Claim C1, amended, on the finished example draft (a pick of a complete draft succeeds)
  and on a draft without rounds, as the deck import saves them (the \<^verbatim>\<open>TypeError\<close>).
\<close>

theorem pick_is_unchecked_witness:
  "isComplete finishedDraft \<and>
   undoBuffer (pickedState halfSource finishedCounter finishedDraft 0) = Some finishedDraft \<and>
   length (pickLog (pickedState halfSource finishedCounter finishedDraft 0)) = 73 \<and>
   pickCard halfSource 0 (DraftState pool3 [] 6 13 [] [] True None) 0 = Inl TypeError"
proof -
  note g = finishedDraft_active
  have pre: "rounds finishedDraft \<noteq> [] \<and> 0 \<le> getActivePackIndex (currentTurn finishedDraft) \<and>
      getActivePackIndex (currentTurn finishedDraft) < int (length (packs (last (rounds finishedDraft))))"
    using g by (simp add: getActivePackIndex_1_13)
  with pick_is_unchecked[of finishedDraft halfSource finishedCounter 0]
  obtain s' k' where p: "pickCard halfSource finishedCounter finishedDraft 0 = Inr (s', k')"
    and u: "undoBuffer s' = Some finishedDraft"
    and l: "length (pickLog s') = Suc (length (pickLog finishedDraft))" by blast
  have s': "pickedState halfSource finishedCounter finishedDraft 0 = s'"
    using pickedState_eq[OF p] by simp
  have "rounds (DraftState pool3 [] 6 13 [] [] True None) = []" by simp
  with pick_is_unchecked[of "DraftState pool3 [] 6 13 [] [] True None" halfSource 0 0]
  have t: "pickCard halfSource 0 (DraftState pool3 [] 6 13 [] [] True None) 0 = Inl TypeError"
    by blast
  show ?thesis using g s' u l t by simp
qed

text \<open>
  Claim C2, amended. Undo fails exactly when the state has no undo buffer. When it
  succeeds it returns exactly the buffered snapshot, together with the undo buffer that
  the snapshot carries: a second consecutive undo fails exactly when the snapshot has no
  buffer of its own. A pick stores the whole state it is given, so undoing the state a
  pick returns gives back that state with its buffer, and undos chain through
  consecutive picks.
\<close>

theorem undo_returns_snapshot:
  "(undoLastPick s = None) = (undoBuffer s = None) \<and>
   (undoLastPick s = Some u \<longrightarrow>
      undoBuffer s = Some u \<and> (undoLastPick u = None) = (undoBuffer u = None)) \<and>
   (pickCard R k s i = Inr (s', k') \<longrightarrow> undoLastPick s' = Some s)"
proof (intro conjI impI)
  show "(undoLastPick s = None) = (undoBuffer s = None)"
    by (simp add: undoLastPick_def split: option.splits)
next
  assume "undoLastPick s = Some u"
  then show "undoBuffer s = Some u"
    by (simp add: undoLastPick_def deepClone_id split: option.splits)
next
  show "(undoLastPick u = None) = (undoBuffer u = None)"
    by (simp add: undoLastPick_def split: option.splits)
next
  assume "pickCard R k s i = Inr (s', k')"
  then have "undoBuffer s' = Some s" by (rule pickCard_Inr_undo)
  then show "undoLastPick s' = Some s" by (simp add: undoLastPick_def deepClone_id)
qed

text \<open>Claim C2 as stated fails after two picks: both consecutive undos succeed.\<close>

theorem undo_chain_counterexample:
  "undoLastPick twoPicksDraft = Some onePickDraft \<and>
   undoLastPick onePickDraft = Some freshDraft"
proof -
  have "undoBuffer twoPicksDraft = Some onePickDraft"
    using pickCard_Inr_undo[OF conjunct1[OF twoPicksDraft_at]] .
  moreover have "undoBuffer onePickDraft = Some freshDraft"
    using pickCard_Inr_undo[OF conjunct1[OF onePickDraft_at]] .
  ultimately show ?thesis by (simp add: undoLastPick_def deepClone_id)
qed

text \<open>Claim C2, amended, on the example draft after two picks and after none.\<close>

theorem undo_returns_snapshot_witness:
  "undoLastPick twoPicksDraft = Some onePickDraft \<and>
   undoBuffer twoPicksDraft = Some onePickDraft \<and>
   undoLastPick onePickDraft \<noteq> None \<and>
   undoLastPick freshDraft = None"
proof -
  note p2 = conjunct1[OF twoPicksDraft_at]
  note p1 = conjunct1[OF onePickDraft_at]
  have a: "undoLastPick twoPicksDraft = Some onePickDraft"
    using undo_returns_snapshot[of onePickDraft _ halfSource onePickCounter 0 twoPicksDraft] p2
    by blast
  have b: "undoBuffer twoPicksDraft = Some onePickDraft"
    using undo_returns_snapshot[of twoPicksDraft onePickDraft] a by blast
  have c: "undoLastPick onePickDraft = Some freshDraft"
    using undo_returns_snapshot[of freshDraft _ halfSource freshCounter 0 onePickDraft] p1
    by blast
  have "undoBuffer freshDraft = None"
    by (simp add: freshDraft_def createNewDraft_def split_beta)
  then have d: "undoLastPick freshDraft = None"
    using undo_returns_snapshot[of freshDraft] by blast
  show ?thesis using a b c d by simp
qed

section \<open>Resetting the round\<close>

lemma findIndexFrom_char:
  "findIndexFrom P i xs =
     (if \<exists>x \<in> set xs. P x then int (i + length (takeWhile (\<lambda>x. \<not> P x) xs)) else - 1)"
  by (induction xs arbitrary: i) auto

lemma spliceFrom_nat: "spliceFrom xs (int n) = take n xs"
  by (simp add: spliceFrom_def spliceStart_def min_def)

lemma resetRound_open:
  "resetRound R k s =
     (DraftState (masterCards s)
        (if rounds s = [] then []
         else (rounds s)[length (rounds s) - 1 := fst (createRound R k (currentRound s) (masterCards s))])
        (currentRound s) 1
        (if \<exists>e \<in> set (pickLog s). roundNo e = currentRound s
         then take (length (takeWhile (\<lambda>e. roundNo e \<noteq> currentRound s) (pickLog s))) (picks s)
         else picks s)
        (takeWhile (\<lambda>e. roundNo e \<noteq> currentRound s) (pickLog s))
        (isComplete s) None,
      snd (createRound R k (currentRound s) (masterCards s)))"
proof (cases "\<exists>e \<in> set (pickLog s). roundNo e = currentRound s")
  case True
  then have "findIndex (\<lambda>e. roundNo e = currentRound s) (pickLog s) =
      int (length (takeWhile (\<lambda>e. roundNo e \<noteq> currentRound s) (pickLog s)))"
    by (simp add: findIndex_def findIndexFrom_char)
  then show ?thesis using True
    by (simp add: resetRound_def deepClone_id Let_def split_beta spliceFrom_nat
        takeWhile_eq_take[symmetric])
next
  case False
  then have f: "findIndex (\<lambda>e. roundNo e = currentRound s) (pickLog s) = - 1"
    by (simp add: findIndex_def findIndexFrom_char)
  show ?thesis using False f
    by (simp add: resetRound_def deepClone_id Let_def split_beta
        takeWhile_eq_all_conv[THEN iffD2])
qed

lemma eighteenPicksDraft_at: "draftAt pool12 18 eighteenPicksDraft"
proof -
  have l: "12 \<le> length pool12" by (simp add: pool12_length)
  from pickAll_zeros[OF freshDraft_at l, of 18 halfSource freshCounter]
  obtain s' k' where run: "pickAll halfSource freshCounter freshDraft (replicate 18 0) = Some (s', k')"
    by auto
  from pickAll_draftAt[OF freshDraft_at l run] have "draftAt pool12 18 s'" by simp
  then show ?thesis using run by (simp add: eighteenPicksDraft_def)
qed

lemma takeWhile_length_map:
  "length (takeWhile P xs) = length (takeWhile (\<lambda>y. y) (map P xs))"
  by (induction xs) auto

text \<open>
  Claim C6. For every state, \<^verbatim>\<open>resetRound\<close> cuts the event log immediately before the
  first event of the current round and cuts the picks at the same position (when the log
  has no event of the current round, nothing is removed from either), resets the turn to
  1, replaces the current (last) round by a freshly created round of 6 packs with
  \<open>min 12 |pool|\<close> cards each, clears the undo buffer, and leaves the round number, the
  master pool and all earlier rounds unchanged.
\<close>

theorem resetRound_effect:
  assumes "resetRound R k s = (s', k')"
  shows "pickLog s' = takeWhile (\<lambda>e. roundNo e \<noteq> currentRound s) (pickLog s) \<and>
         picks s' =
           (if \<exists>e \<in> set (pickLog s). roundNo e = currentRound s
            then take (length (pickLog s')) (picks s) else picks s) \<and>
         currentTurn s' = 1 \<and> undoBuffer s' = None \<and>
         currentRound s' = currentRound s \<and> masterCards s' = masterCards s \<and>
         length (rounds s') = length (rounds s) \<and> butlast (rounds s') = butlast (rounds s) \<and>
         (rounds s \<noteq> [] \<longrightarrow>
            last (rounds s') = fst (createRound R k (currentRound s) (masterCards s)) \<and>
            roundNumber (last (rounds s')) = currentRound s \<and>
            roundShape (min 12 (length (masterCards s))) (last (rounds s')))"
proof -
  let ?nr = "fst (createRound R k (currentRound s) (masterCards s))"
  have s': "s' = DraftState (masterCards s)
        (if rounds s = [] then [] else (rounds s)[length (rounds s) - 1 := ?nr])
        (currentRound s) 1
        (if \<exists>e \<in> set (pickLog s). roundNo e = currentRound s
         then take (length (takeWhile (\<lambda>e. roundNo e \<noteq> currentRound s) (pickLog s))) (picks s)
         else picks s)
        (takeWhile (\<lambda>e. roundNo e \<noteq> currentRound s) (pickLog s))
        (isComplete s) None"
    using assms by (simp add: resetRound_open)
  have sh: "roundShape (min 12 (length (masterCards s))) ?nr"
    using createRound_packs[of R k "currentRound s" "masterCards s"] by (simp add: roundShape_def)
  have rn: "roundNumber ?nr = currentRound s" by (simp add: createRound_def split_beta)
  have bl: "butlast ((rounds s)[length (rounds s) - 1 := ?nr]) = butlast (rounds s)"
    by (simp add: butlast_list_update)
  have la: "rounds s \<noteq> [] \<Longrightarrow> last ((rounds s)[length (rounds s) - 1 := ?nr]) = ?nr"
    by (simp add: last_list_update)
  show ?thesis unfolding s' using sh rn bl la by simp
qed

text \<open>
  Claim C6 on the example draft after 18 picks, at round 2, turn 7: resetting the round
  removes the 6 picks and the 6 events of round 2.
\<close>

theorem resetRound_effect_witness:
  "currentRound eighteenPicksDraft = 2 \<and> currentTurn eighteenPicksDraft = 7 \<and>
   length (picks eighteenPicksDraft) = 18 \<and> length (pickLog eighteenPicksDraft) = 18 \<and>
   length (picks (fst (resetRound halfSource 0 eighteenPicksDraft))) = 12 \<and>
   length (pickLog (fst (resetRound halfSource 0 eighteenPicksDraft))) = 12 \<and>
   currentTurn (fst (resetRound halfSource 0 eighteenPicksDraft)) = 1 \<and>
   currentRound (fst (resetRound halfSource 0 eighteenPicksDraft)) = 2 \<and>
   roundShape 12 (last (rounds (fst (resetRound halfSource 0 eighteenPicksDraft))))"
proof -
  let ?s = eighteenPicksDraft
  let ?s' = "fst (resetRound halfSource 0 ?s)"
  note d = eighteenPicksDraft_at
  have cr: "currentRound ?s = 2" and ct: "currentTurn ?s = 7" and lp: "length (picks ?s) = 18"
    and ll: "length (pickLog ?s) = 18" and mc: "masterCards ?s = pool12"
    and lr: "length (rounds ?s) = 2"
    and rn: "map roundNo (pickLog ?s) = map (\<lambda>j. int (j div 12) + 1) [0..<18]"
    using d by (simp_all add: draftAt_def)
  have rn': "map roundNo (pickLog ?s) = [1, 1, 1, 1, 1, 1, 1, 1, 1, 1, 1, 1, 2, 2, 2, 2, 2, 2]"
    unfolding rn by (simp add: upt_rec)
  have "map (\<lambda>e. roundNo e \<noteq> 2) (pickLog ?s) = map (\<lambda>r. r \<noteq> 2) (map roundNo (pickLog ?s))"
    by simp
  then have tw: "length (takeWhile (\<lambda>e. roundNo e \<noteq> 2) (pickLog ?s)) = 12"
    unfolding takeWhile_length_map[of "\<lambda>e. roundNo e \<noteq> 2"] rn' by simp
  have ex: "\<exists>e \<in> set (pickLog ?s). roundNo e = currentRound ?s"
  proof -
    have "2 \<in> set (map roundNo (pickLog ?s))" unfolding rn' by simp
    then show ?thesis using cr by auto
  qed
  have ne: "rounds ?s \<noteq> []" using lr by auto
  have eq: "resetRound halfSource 0 ?s = (?s', snd (resetRound halfSource 0 ?s))" by simp
  note main = resetRound_effect[OF eq]
  have a: "length (pickLog ?s') = 12" using main tw cr by simp
  have b: "length (picks ?s') = 12" using main ex a lp by simp
  have c: "currentTurn ?s' = 1" "currentRound ?s' = 2" using main cr by simp_all
  from main have "rounds ?s \<noteq> [] \<longrightarrow>
      roundShape (min 12 (length (masterCards ?s))) (last (rounds ?s'))" by blast
  then have e: "roundShape 12 (last (rounds ?s'))" using ne mc by (simp add: pool12_length)
  show ?thesis using cr ct lp ll a b c e by simp
qed

section \<open>Rarities that are inherited names\<close>

lemma getRarityValue_table:
  "getRarityValue None = Some 0 \<and> getRarityValue (Some ''Common'') = Some 1 \<and>
   getRarityValue (Some ''Uncommon'') = Some 2 \<and> getRarityValue (Some ''Rare'') = Some 3 \<and>
   getRarityValue (Some ''Super Rare'') = Some 4 \<and>
   getRarityValue (Some ''Legendary'') = Some 5 \<and> getRarityValue (Some ''Epic'') = Some 6 \<and>
   getRarityValue (Some ''Iconic'') = Some 7 \<and> getRarityValue (Some ''Enchanted'') = Some 8 \<and>
   getRarityValue (Some ''Special'') = Some 9 \<and> getRarityValue (Some ''Mythic'') = Some 0"
  by (simp add: getRarityValue_def rarityMap_def objectPrototypeNames_def)

lemma getRarityValue_inherited:
  "getRarityValue (Some ''constructor'') = None \<and> getRarityValue (Some ''toString'') = None \<and>
   getRarityValue (Some ''__proto__'') = None"
  by (simp add: getRarityValue_def rarityMap_def objectPrototypeNames_def)

lemma findRarestCardIndex_passes_over:
  "findRarestCardIndex R k [constructorCard, noRarityCard] = (Some 1, k) \<and>
   findRarestCardIndex R k [noRarityCard, constructorCard] = (Some 0, k)"
  by (simp add: findRarestCardIndex_def constructorCard_def noRarityCard_def exampleCard_def
      getRarityValue_def rarityMap_def objectPrototypeNames_def)

lemma findRarestCardIndex_undefined:
  "findRarestCardIndex R k [toStringCard, constructorCard] = (None, Suc k)"
  by (simp add: findRarestCardIndex_def constructorCard_def toStringCard_def exampleCard_def
      getRarityValue_def rarityMap_def objectPrototypeNames_def randomInt_def Math_random_def)

lemma inheritedDraft_packs:
  "map cards (packs (last (rounds inheritedDraft))) = replicate 6 [toStringCard, constructorCard]"
  by code_simp

lemma inheritedDraft_pick:
  "(case pickCard halfSource inheritedCounter inheritedDraft 1 of
      Inl e \<Rightarrow> None
    | Inr (s', k') \<Rightarrow>
        Some (picks s', map cards (packs (last (rounds s'))),
              removedCounts (last (pickLog s')))) =
   Some ([Some constructorCard], [toStringCard] # replicate 5 [constructorCard], 5)"
  by code_simp

text \<open>
  Claim C4, at a rarity that is the name of a member that every object inherits. The
  ranks of the table are those of the claim, and a missing rarity and a name such as
  \<^verbatim>\<open>Mythic\<close> have rank 0. For \<^verbatim>\<open>constructor\<close>, \<^verbatim>\<open>toString\<close> and \<^verbatim>\<open>__proto__\<close>, which are not
  in the table either, \<^verbatim>\<open>getRarityValue\<close> does not return 0 but the inherited member,
  and the rarity branch passes over a card with such a rarity:
  \<^item> in a pack of such a card and a card without a rarity, it always takes the card
    without a rarity, and uses no draw, where two cards of rank 0 tie;
  \<^item> in a pack of two such cards it finds no index at all, after one draw;
  \<^item> in the draft over these two cards, where every pack is \<^verbatim>\<open>toString\<close>,
    \<^verbatim>\<open>constructor\<close>, the pick of index 1 with every draw at \<open>1/2\<close> succeeds, and in each
    of the five other packs the removal took the first card: \<^verbatim>\<open>splice\<close> reads the missing
    index as 0. The draw \<open>1/2\<close> among two tied cards selects the second one.
\<close>

theorem inherited_rarity_names_unranked:
  "(getRarityValue None = Some 0 \<and> getRarityValue (Some ''Common'') = Some 1 \<and>
    getRarityValue (Some ''Uncommon'') = Some 2 \<and> getRarityValue (Some ''Rare'') = Some 3 \<and>
    getRarityValue (Some ''Super Rare'') = Some 4 \<and>
    getRarityValue (Some ''Legendary'') = Some 5 \<and> getRarityValue (Some ''Epic'') = Some 6 \<and>
    getRarityValue (Some ''Iconic'') = Some 7 \<and> getRarityValue (Some ''Enchanted'') = Some 8 \<and>
    getRarityValue (Some ''Special'') = Some 9 \<and> getRarityValue (Some ''Mythic'') = Some 0) \<and>
   (getRarityValue (Some ''constructor'') = None \<and> getRarityValue (Some ''toString'') = None \<and>
    getRarityValue (Some ''__proto__'') = None) \<and>
   (findRarestCardIndex R k [constructorCard, noRarityCard] = (Some 1, k) \<and>
    findRarestCardIndex R k [noRarityCard, constructorCard] = (Some 0, k)) \<and>
   findRarestCardIndex R k [toStringCard, constructorCard] = (None, Suc k) \<and>
   map cards (packs (last (rounds inheritedDraft))) = replicate 6 [toStringCard, constructorCard] \<and>
   (\<exists>s' k'. pickCard halfSource inheritedCounter inheritedDraft 1 = Inr (s', k') \<and>
      picks s' = [Some constructorCard] \<and>
      map cards (packs (last (rounds s'))) = [toStringCard] # replicate 5 [constructorCard] \<and>
      removedCounts (last (pickLog s')) = 5)"
proof -
  have "\<exists>s' k'. pickCard halfSource inheritedCounter inheritedDraft 1 = Inr (s', k') \<and>
      picks s' = [Some constructorCard] \<and>
      map cards (packs (last (rounds s'))) = [toStringCard] # replicate 5 [constructorCard] \<and>
      removedCounts (last (pickLog s')) = 5"
    using inheritedDraft_pick by (auto split: sum.splits prod.splits)
  then show ?thesis
    using getRarityValue_table getRarityValue_inherited findRarestCardIndex_passes_over
      findRarestCardIndex_undefined inheritedDraft_packs by blast
qed

section \<open>The tally and its text\<close>

lemma mset_insertSorted: "mset (insertSorted cmp x ys) = add_mset x (mset ys)"
  by (induction ys) auto

lemma mset_sortBy: "mset (sortBy cmp xs) = mset xs"
  by (induction xs) (simp_all add: sortBy_def mset_insertSorted)

lemma set_insertSorted: "set (insertSorted cmp x ys) = insert x (set ys)"
  using mset_insertSorted[of cmp x ys] by (metis set_mset_add_mset_insert set_mset_mset)

lemma sorted_insertSorted:
  assumes tot: "\<And>a b. cmp a b \<le> 0 \<or> cmp b a \<le> 0"
    and tr: "\<And>a b c. cmp a b \<le> 0 \<Longrightarrow> cmp b c \<le> 0 \<Longrightarrow> cmp a c \<le> 0"
  shows "sorted_wrt (\<lambda>a b. cmp a b \<le> 0) ys \<Longrightarrow>
         sorted_wrt (\<lambda>a b. cmp a b \<le> 0) (insertSorted cmp x ys)"
proof (induction ys)
  case Nil
  then show ?case by simp
next
  case (Cons y ys)
  show ?case
  proof (cases "cmp x y \<le> 0")
    case True
    have "\<forall>z \<in> set ys. cmp x z \<le> 0"
    proof
      fix z assume "z \<in> set ys"
      then have "cmp y z \<le> 0" using Cons.prems by simp
      then show "cmp x z \<le> 0" using True tr by blast
    qed
    then show ?thesis using True Cons.prems by simp
  next
    case False
    then have yx: "cmp y x \<le> 0" using tot by blast
    have "sorted_wrt (\<lambda>a b. cmp a b \<le> 0) (insertSorted cmp x ys)"
      using Cons by simp
    moreover have "\<forall>z \<in> set (insertSorted cmp x ys). cmp y z \<le> 0"
      using yx Cons.prems by (simp add: set_insertSorted)
    ultimately show ?thesis using False by simp
  qed
qed

lemma sorted_sortBy:
  assumes tot: "\<And>a b. cmp a b \<le> 0 \<or> cmp b a \<le> 0"
    and tr: "\<And>a b c. cmp a b \<le> 0 \<Longrightarrow> cmp b c \<le> 0 \<Longrightarrow> cmp a c \<le> 0"
  shows "sorted_wrt (\<lambda>a b. cmp a b \<le> 0) (sortBy cmp xs)"
proof (induction xs)
  case Nil
  then show ?case by (simp add: sortBy_def)
next
  case (Cons x xs)
  have "sortBy cmp (x # xs) = insertSorted cmp x (sortBy cmp xs)" by (simp add: sortBy_def)
  then show ?case using sorted_insertSorted[of cmp "sortBy cmp xs" x, OF tot tr] Cons by simp
qed

lemma tallyCompare_before: "(tallyCompare lc a b \<le> 0) = tallyBefore lc a b"
  by (auto simp: tallyCompare_def tallyBefore_def)

lemma tallyBefore_total:
  "consistentComparator lc \<Longrightarrow> tallyBefore lc a b \<or> tallyBefore lc b a"
  unfolding consistentComparator_def tallyBefore_def
  by (metis linorder_neqE_nat)

lemma tallyBefore_trans:
  "consistentComparator lc \<Longrightarrow> tallyBefore lc a b \<Longrightarrow> tallyBefore lc b c \<Longrightarrow> tallyBefore lc a c"
  unfolding consistentComparator_def tallyBefore_def
  by (metis less_trans)

lemma getTally_sorted:
  assumes "consistentComparator lc"
  shows "sorted_wrt (tallyBefore lc) (getTally lc ps)"
proof -
  have "sorted_wrt (\<lambda>a b. tallyCompare lc a b \<le> 0) (sortBy (tallyCompare lc) (map snd (tallyLoop ps [])))"
  proof (rule sorted_sortBy)
    fix a b show "tallyCompare lc a b \<le> 0 \<or> tallyCompare lc b a \<le> 0"
      using tallyBefore_total[OF assms] by (simp add: tallyCompare_before)
  next
    fix a b c assume "tallyCompare lc a b \<le> 0" "tallyCompare lc b c \<le> 0"
    then show "tallyCompare lc a c \<le> 0"
      using tallyBefore_trans[OF assms] by (simp add: tallyCompare_before)
  qed
  then show ?thesis by (simp add: getTally_def tallyCompare_before)
qed

lemma map_of_tallyAdd:
  "map_of (tallyAdd c m) k =
     (if k = cardKey c then
        Some (case map_of m k of
                None \<Rightarrow> \<lparr>tallyCount = 1, tallyFullName = fullName c, tallyColor = color c\<rparr>
              | Some e \<Rightarrow> e\<lparr>tallyCount := tallyCount e + 1\<rparr>)
      else map_of m k)"
  by (induction m) auto

lemma keys_tallyAdd:
  "map fst (tallyAdd c m) =
     (if cardKey c \<in> set (map fst m) then map fst m else map fst m @ [cardKey c])"
proof (induction m)
  case Nil
  then show ?case by simp
next
  case (Cons p m)
  obtain key e where p: "p = (key, e)" by (cases p)
  show ?case
  proof (cases "key = cardKey c")
    case True
    then show ?thesis by (simp add: p)
  next
    case False
    then show ?thesis using Cons.IH by (simp add: p)
  qed
qed

lemma tallyLoop_keys:
  "distinct (map fst m) \<Longrightarrow>
   distinct (map fst (tallyLoop cs m)) \<and>
   set (map fst (tallyLoop cs m)) = set (map fst m) \<union> cardKey ` set cs"
proof (induction cs arbitrary: m)
  case Nil
  then show ?case by simp
next
  case (Cons c cs)
  have d: "distinct (map fst (tallyAdd c m))" using Cons.prems by (simp add: keys_tallyAdd)
  have s: "set (map fst (tallyAdd c m)) = insert (cardKey c) (set (map fst m))"
    by (auto simp: keys_tallyAdd)
  from Cons.IH[OF d] show ?case using s by auto
qed

lemma tallyLoop_map_of:
  "map_of (tallyLoop cs m) k =
     (case map_of m k of
        Some e \<Rightarrow> Some (e\<lparr>tallyCount := tallyCount e + length (filter (\<lambda>c. cardKey c = k) cs)\<rparr>)
      | None \<Rightarrow>
          (case filter (\<lambda>c. cardKey c = k) cs of
             [] \<Rightarrow> None
           | c # rest \<Rightarrow>
               Some \<lparr>tallyCount = Suc (length rest), tallyFullName = fullName c,
                     tallyColor = color c\<rparr>))"
proof (induction cs arbitrary: m)
  case Nil
  then show ?case by (simp split: option.splits)
next
  case (Cons c cs)
  show ?case
    by (simp add: Cons.IH map_of_tallyAdd split: option.splits list.splits)
qed

lemma tally_row:
  assumes "t \<in> set (map snd (tallyLoop ps []))"
  shows "\<exists>c \<in> set ps. tallyFullName t = fullName c \<and> tallyColor t = color c \<and>
           tallyCount t = length (filter (\<lambda>c'. cardKey c' = cardKey c) ps)"
proof -
  from assms obtain k where kt: "(k, t) \<in> set (tallyLoop ps [])" by auto
  have "distinct (map fst (tallyLoop ps []))" using tallyLoop_keys[of "[]" ps] by simp
  then have "map_of (tallyLoop ps []) k = Some t" using kt by simp
  then have m: "(case filter (\<lambda>c. cardKey c = k) ps of
             [] \<Rightarrow> None
           | c # rest \<Rightarrow>
               Some \<lparr>tallyCount = Suc (length rest), tallyFullName = fullName c,
                     tallyColor = color c\<rparr>) = Some t"
    by (simp add: tallyLoop_map_of)
  then obtain c rest where f: "filter (\<lambda>c. cardKey c = k) ps = c # rest"
    by (cases "filter (\<lambda>c. cardKey c = k) ps") auto
  then have t: "t = \<lparr>tallyCount = Suc (length rest), tallyFullName = fullName c, tallyColor = color c\<rparr>"
    using m by simp
  have "c \<in> set (filter (\<lambda>c. cardKey c = k) ps)" using f by simp
  then have c: "c \<in> set ps" "cardKey c = k" by auto
  have "tallyCount t = length (filter (\<lambda>c'. cardKey c' = cardKey c) ps)"
    using t f c by simp
  then show ?thesis using c t by auto
qed

lemma tally_covers:
  assumes "c \<in> set ps"
  shows "\<exists>t \<in> set (map snd (tallyLoop ps [])). \<exists>c0 \<in> set ps. cardKey c0 = cardKey c \<and>
           tallyFullName t = fullName c0 \<and> tallyColor t = color c0"
proof -
  have "cardKey c \<in> set (map fst (tallyLoop ps []))"
    using tallyLoop_keys[of "[]" ps] assms by simp
  then obtain t where kt: "(cardKey c, t) \<in> set (tallyLoop ps [])" by auto
  have "distinct (map fst (tallyLoop ps []))" using tallyLoop_keys[of "[]" ps] by simp
  then have "map_of (tallyLoop ps []) (cardKey c) = Some t" using kt by simp
  then have m: "(case filter (\<lambda>c'. cardKey c' = cardKey c) ps of
             [] \<Rightarrow> None
           | c0 # rest \<Rightarrow>
               Some \<lparr>tallyCount = Suc (length rest), tallyFullName = fullName c0,
                     tallyColor = color c0\<rparr>) = Some t"
    by (simp add: tallyLoop_map_of)
  then obtain c0 rest where f: "filter (\<lambda>c'. cardKey c' = cardKey c) ps = c0 # rest"
    by (cases "filter (\<lambda>c'. cardKey c' = cardKey c) ps") auto
  then have t: "t = \<lparr>tallyCount = Suc (length rest), tallyFullName = fullName c0, tallyColor = color c0\<rparr>"
    using m by simp
  have "c0 \<in> set (filter (\<lambda>c'. cardKey c' = cardKey c) ps)" using f by simp
  then have c0: "c0 \<in> set ps" "cardKey c0 = cardKey c" by auto
  have ts: "t \<in> set (map snd (tallyLoop ps []))" using kt by force
  have "cardKey c0 = cardKey c \<and> tallyFullName t = fullName c0 \<and> tallyColor t = color c0"
    using c0 t by simp
  then show ?thesis using ts c0(1) by blast
qed

lemma tally_keys_of_rows:
  "map fst (tallyLoop ps []) =
   map (\<lambda>t. tallyFullName t @ ''|'' @ tallyColor t) (map snd (tallyLoop ps []))"
proof -
  have d: "distinct (map fst (tallyLoop ps []))" using tallyLoop_keys[of "[]" ps] by simp
  have "\<forall>(k, t) \<in> set (tallyLoop ps []). k = tallyFullName t @ ''|'' @ tallyColor t"
  proof (clarify)
    fix k t assume kt: "(k, t) \<in> set (tallyLoop ps [])"
    then have "map_of (tallyLoop ps []) k = Some t" using d by simp
    then have m: "(case filter (\<lambda>c. cardKey c = k) ps of
             [] \<Rightarrow> None
           | c # rest \<Rightarrow>
               Some \<lparr>tallyCount = Suc (length rest), tallyFullName = fullName c,
                     tallyColor = color c\<rparr>) = Some t"
      by (simp add: tallyLoop_map_of)
    then obtain c rest where f: "filter (\<lambda>c. cardKey c = k) ps = c # rest"
      by (cases "filter (\<lambda>c. cardKey c = k) ps") auto
    then have t: "t = \<lparr>tallyCount = Suc (length rest), tallyFullName = fullName c, tallyColor = color c\<rparr>"
      using m by simp
    have "c \<in> set (filter (\<lambda>c. cardKey c = k) ps)" using f by simp
    then have "cardKey c = k" by simp
    then show "k = tallyFullName t @ ''|'' @ tallyColor t" using t by (simp add: cardKey_def)
  qed
  then show ?thesis by (induction "tallyLoop ps []") auto
qed

lemma cardKey_inj:
  assumes "cardKey a = cardKey b" and "CHR ''|'' \<notin> set (color a)" and "CHR ''|'' \<notin> set (color b)"
  shows "fullName a = fullName b \<and> color a = color b"
proof -
  have tw: "\<And>x y. CHR ''|'' \<notin> set y \<Longrightarrow>
      takeWhile (\<lambda>ch. ch \<noteq> CHR ''|'') (rev y @ CHR ''|'' # rev x) = rev y"
    by (subst takeWhile_append2) auto
  have "rev (cardKey a) = rev (cardKey b)" using assms(1) by simp
  then have e: "rev (color a) @ CHR ''|'' # rev (fullName a) = rev (color b) @ CHR ''|'' # rev (fullName b)"
    by (simp add: cardKey_def)
  have "rev (color a) = rev (color b)"
    using tw[OF assms(2), of "fullName a"] tw[OF assms(3), of "fullName b"] e by simp
  then have c: "color a = color b" by simp
  then have "fullName a = fullName b" using assms(1) by (simp add: cardKey_def)
  then show ?thesis using c by simp
qed

lemma codeUnitCompare_Cons:
  "(codeUnitCompare (x # xs) (y # ys) \<le> 0) =
   ((of_char x :: nat) < of_char y \<or> (of_char x :: nat) = of_char y \<and> codeUnitCompare xs ys \<le> 0)"
proof -
  consider (lt) "(of_char x :: nat) < of_char y" | (gt) "(of_char y :: nat) < of_char x"
    | (eq) "(of_char x :: nat) = of_char y" by linarith
  then show ?thesis
  proof cases
    case lt then show ?thesis by simp
  next
    case gt then show ?thesis by auto
  next
    case eq then show ?thesis by simp
  qed
qed

lemma codeUnitCompare_total: "codeUnitCompare a b \<le> 0 \<or> codeUnitCompare b a \<le> 0"
proof (induction a b rule: codeUnitCompare.induct)
  case 1 then show ?case by simp
next
  case (2 y ys) then show ?case by simp
next
  case (3 x xs) then show ?case by simp
next
  case (4 x xs y ys)
  consider (lt) "(of_char x :: nat) < of_char y" | (gt) "(of_char y :: nat) < of_char x"
    | (eq) "(of_char x :: nat) = of_char y" by linarith
  then show ?case
  proof cases
    case lt then show ?thesis by (simp only: codeUnitCompare_Cons) simp
  next
    case gt then show ?thesis by (simp only: codeUnitCompare_Cons) simp
  next
    case eq
    then have "codeUnitCompare xs ys \<le> 0 \<or> codeUnitCompare ys xs \<le> 0" using 4 by simp
    then show ?thesis using eq by (simp only: codeUnitCompare_Cons) auto
  qed
qed

lemma codeUnitCompare_trans:
  "codeUnitCompare a b \<le> 0 \<Longrightarrow> codeUnitCompare b c \<le> 0 \<Longrightarrow> codeUnitCompare a c \<le> 0"
proof (induction a arbitrary: b c)
  case Nil
  then show ?case by (cases c) simp_all
next
  case (Cons x xs)
  obtain y ys where b: "b = y # ys" using Cons.prems(1) by (cases b) simp_all
  obtain z zs where c: "c = z # zs" using Cons.prems(2) b by (cases c) simp_all
  have xy: "(of_char x :: nat) < of_char y \<or> (of_char x :: nat) = of_char y \<and> codeUnitCompare xs ys \<le> 0"
    using Cons.prems(1) unfolding b by (simp only: codeUnitCompare_Cons)
  have yz: "(of_char y :: nat) < of_char z \<or> (of_char y :: nat) = of_char z \<and> codeUnitCompare ys zs \<le> 0"
    using Cons.prems(2) unfolding b c by (simp only: codeUnitCompare_Cons)
  have "(of_char x :: nat) < of_char z \<or> (of_char x :: nat) = of_char z \<and> codeUnitCompare xs zs \<le> 0"
  proof (cases "(of_char x :: nat) = of_char y \<and> (of_char y :: nat) = of_char z")
    case True
    then have "codeUnitCompare xs ys \<le> 0" "codeUnitCompare ys zs \<le> 0" using xy yz by simp_all
    then have "codeUnitCompare xs zs \<le> 0" by (rule Cons.IH)
    then show ?thesis using True by simp
  next
    case False
    then have "(of_char x :: nat) < of_char z" using xy yz by linarith
    then show ?thesis by simp
  qed
  then show ?case unfolding c by (simp only: codeUnitCompare_Cons)
qed

lemma codeUnitCompare_consistent: "consistentComparator codeUnitCompare"
  unfolding consistentComparator_def
  using codeUnitCompare_total codeUnitCompare_trans by blast

text \<open>
  Claim C7. For every consistent name comparator and every list of picked cards whose
  colors contain no bar (the six colors of the game do not), the export text is the
  lines \<open>"<count> <fullName>"\<close> of the tally rows, joined by newlines in tally order; the
  rows are the distinct (fullName, color) groups of the picks, one row per group; the
  count of a row is the number of picks of its group; and the rows are ordered by count
  descending, rows of equal count by the comparator on the names.
\<close>

theorem canonical_export_text:
  assumes "consistentComparator lc" and "\<forall>c \<in> set ps. CHR ''|'' \<notin> set (color c)"
  shows "generateCopyTextWithoutColor lc ps =
           joinWith [CHR 0x0A]
             (map (\<lambda>t. show_nat (tallyCount t) @ '' '' @ tallyFullName t) (getTally lc ps)) \<and>
         distinct (map (\<lambda>t. (tallyFullName t, tallyColor t)) (getTally lc ps)) \<and>
         set (map (\<lambda>t. (tallyFullName t, tallyColor t)) (getTally lc ps)) =
           set (map (\<lambda>c. (fullName c, color c)) ps) \<and>
         (\<forall>t \<in> set (getTally lc ps).
            tallyCount t =
              length (filter (\<lambda>c. fullName c = tallyFullName t \<and> color c = tallyColor t) ps)) \<and>
         sorted_wrt (\<lambda>a b. tallyCount b < tallyCount a \<or>
                            tallyCount a = tallyCount b \<and>
                            lc (tallyFullName a) (tallyFullName b) \<le> 0) (getTally lc ps)"
proof -
  let ?rows = "map snd (tallyLoop ps [])"
  let ?pair = "\<lambda>t. (tallyFullName t, tallyColor t)"
  have ms: "mset (getTally lc ps) = mset ?rows" by (simp add: getTally_def mset_sortBy)
  then have st: "set (getTally lc ps) = set ?rows" by (metis set_mset_mset)
  have inj: "\<And>a b. a \<in> set ps \<Longrightarrow> b \<in> set ps \<Longrightarrow>
      (cardKey a = cardKey b) = (fullName a = fullName b \<and> color a = color b)"
    using cardKey_inj assms(2) by (auto simp: cardKey_def)
  have export: "generateCopyTextWithoutColor lc ps =
           joinWith [CHR 0x0A]
             (map (\<lambda>t. show_nat (tallyCount t) @ '' '' @ tallyFullName t) (getTally lc ps))"
    by (simp add: generateCopyTextWithoutColor_def tallyLine_def[abs_def])
  have dk: "distinct (map (\<lambda>t. tallyFullName t @ ''|'' @ tallyColor t) ?rows)"
    using tallyLoop_keys[of "[]" ps] tally_keys_of_rows[of ps] by simp
  have dk': "distinct ?rows \<and> inj_on (\<lambda>t. tallyFullName t @ ''|'' @ tallyColor t) (set ?rows)"
    using dk by (simp only: distinct_map)
  have "inj_on ?pair (set ?rows)"
  proof (rule inj_onI)
    fix a b assume a: "a \<in> set ?rows" and b: "b \<in> set ?rows" and e: "?pair a = ?pair b"
    then have "tallyFullName a @ ''|'' @ tallyColor a = tallyFullName b @ ''|'' @ tallyColor b"
      by simp
    then show "a = b" using dk' a b by (meson inj_onD)
  qed
  then have dr: "distinct (map ?pair ?rows)" using dk' by (simp only: distinct_map)
  have "mset (map ?pair (getTally lc ps)) = mset (map ?pair ?rows)"
    using arg_cong[OF ms, of "image_mset ?pair"] by (simp only: mset_map)
  then have dist: "distinct (map ?pair (getTally lc ps))"
    using dr by (metis mset_eq_imp_distinct_iff)
  have sub1: "set (map ?pair ?rows) \<subseteq> set (map (\<lambda>c. (fullName c, color c)) ps)"
  proof
    fix x assume "x \<in> set (map ?pair ?rows)"
    then obtain t where t: "t \<in> set ?rows" "x = ?pair t" by auto
    from tally_row[OF t(1)] obtain c where "c \<in> set ps" "tallyFullName t = fullName c"
      "tallyColor t = color c" by blast
    then show "x \<in> set (map (\<lambda>c. (fullName c, color c)) ps)" using t(2) by auto
  qed
  have sub2: "set (map (\<lambda>c. (fullName c, color c)) ps) \<subseteq> set (map ?pair ?rows)"
  proof
    fix x assume "x \<in> set (map (\<lambda>c. (fullName c, color c)) ps)"
    then obtain c where c: "c \<in> set ps" "x = (fullName c, color c)" by auto
    from tally_covers[OF c(1)] obtain t c0 where t: "t \<in> set ?rows" and c0: "c0 \<in> set ps"
      and k: "cardKey c0 = cardKey c"
      and tn: "tallyFullName t = fullName c0" "tallyColor t = color c0" by blast
    have "fullName c0 = fullName c \<and> color c0 = color c" using inj[OF c0 c(1)] k by simp
    then have "x = ?pair t" using c(2) tn by simp
    then show "x \<in> set (map ?pair ?rows)" using t by auto
  qed
  have sets: "set (map ?pair (getTally lc ps)) = set (map (\<lambda>c. (fullName c, color c)) ps)"
    using sub1 sub2 st by auto
  have counts: "\<forall>t \<in> set (getTally lc ps).
            tallyCount t =
              length (filter (\<lambda>c. fullName c = tallyFullName t \<and> color c = tallyColor t) ps)"
  proof
    fix t assume "t \<in> set (getTally lc ps)"
    then have "t \<in> set ?rows" using st by simp
    from tally_row[OF this] obtain c where c: "c \<in> set ps" and tn: "tallyFullName t = fullName c"
      "tallyColor t = color c"
      and tc: "tallyCount t = length (filter (\<lambda>c'. cardKey c' = cardKey c) ps)" by blast
    have "filter (\<lambda>c'. cardKey c' = cardKey c) ps =
          filter (\<lambda>c'. fullName c' = tallyFullName t \<and> color c' = tallyColor t) ps"
      using inj[OF _ c] tn by (intro filter_cong) auto
    then show "tallyCount t =
              length (filter (\<lambda>c. fullName c = tallyFullName t \<and> color c = tallyColor t) ps)"
      using tc by simp
  qed
  have sorted: "sorted_wrt (\<lambda>a b. tallyCount b < tallyCount a \<or>
                            tallyCount a = tallyCount b \<and>
                            lc (tallyFullName a) (tallyFullName b) \<le> 0) (getTally lc ps)"
    using getTally_sorted[OF assms(1), of ps] by (simp add: tallyBefore_def[abs_def])
  show ?thesis using export dist sets counts sorted by blast
qed

text \<open>
  Claim C7 on four picks, Card C, Card A, Card B, Card A: Card A is counted twice and
  comes first; Card B and Card C tie at one and are ordered by name.
\<close>

theorem canonical_export_text_witness:
  "generateCopyTextWithoutColor codeUnitCompare examplePicks =
     ''2 Card A'' @ [CHR 0x0A] @ ''1 Card B'' @ [CHR 0x0A] @ ''1 Card C'' \<and>
   getTally codeUnitCompare examplePicks =
     [\<lparr>tallyCount = 2, tallyFullName = ''Card A'', tallyColor = ''Amber''\<rparr>,
      \<lparr>tallyCount = 1, tallyFullName = ''Card B'', tallyColor = ''Ruby''\<rparr>,
      \<lparr>tallyCount = 1, tallyFullName = ''Card C'', tallyColor = ''Steel''\<rparr>] \<and>
   codeUnitCompare ''Card B'' ''Card C'' \<le> 0"
proof -
  have nb: "\<forall>c \<in> set examplePicks. CHR ''|'' \<notin> set (color c)"
    by (simp add: examplePicks_def pool3_def exampleCard_def)
  note main = canonical_export_text[OF codeUnitCompare_consistent nb]
  have t: "getTally codeUnitCompare examplePicks =
     [\<lparr>tallyCount = 2, tallyFullName = ''Card A'', tallyColor = ''Amber''\<rparr>,
      \<lparr>tallyCount = 1, tallyFullName = ''Card B'', tallyColor = ''Ruby''\<rparr>,
      \<lparr>tallyCount = 1, tallyFullName = ''Card C'', tallyColor = ''Steel''\<rparr>]"
    by code_simp
  from main have "generateCopyTextWithoutColor codeUnitCompare examplePicks =
           joinWith [CHR 0x0A]
             (map (\<lambda>t. show_nat (tallyCount t) @ '' '' @ tallyFullName t)
                (getTally codeUnitCompare examplePicks))" by blast
  also have "\<dots> = ''2 Card A'' @ [CHR 0x0A] @ ''1 Card B'' @ [CHR 0x0A] @ ''1 Card C''"
    unfolding t by code_simp
  finally have a: "generateCopyTextWithoutColor codeUnitCompare examplePicks =
     ''2 Card A'' @ [CHR 0x0A] @ ''1 Card B'' @ [CHR 0x0A] @ ''1 Card C''" .
  from main have "sorted_wrt (\<lambda>a b. tallyCount b < tallyCount a \<or>
                            tallyCount a = tallyCount b \<and>
                            codeUnitCompare (tallyFullName a) (tallyFullName b) \<le> 0)
                   (getTally codeUnitCompare examplePicks)" by blast
  then have c: "codeUnitCompare ''Card B'' ''Card C'' \<le> 0" unfolding t by simp
  show ?thesis using a t c by simp
qed

section \<open>Deck import\<close>

lemma digit_value: "d < 10 \<Longrightarrow> (of_char (digit d) :: nat) - 48 = d"
proof -
  assume "d < 10"
  then have "d = 0 \<or> d = 1 \<or> d = 2 \<or> d = 3 \<or> d = 4 \<or> d = 5 \<or> d = 6 \<or> d = 7 \<or> d = 8 \<or> d = 9"
    by arith
  then show ?thesis by (auto simp: digit_def)
qed

lemma digit_isDigit: "d < 10 \<Longrightarrow> isDigit (digit d)"
proof -
  assume "d < 10"
  then have "d = 0 \<or> d = 1 \<or> d = 2 \<or> d = 3 \<or> d = 4 \<or> d = 5 \<or> d = 6 \<or> d = 7 \<or> d = 8 \<or> d = 9"
    by arith
  then show ?thesis by (auto simp: digit_def isDigit_def)
qed

lemma show_nat_digits: "show_nat n \<noteq> [] \<and> (\<forall>c \<in> set (show_nat n). isDigit c)"
proof (induction n rule: show_nat.induct)
  case (1 n)
  show ?case
  proof (cases "n < 10")
    case True
    then show ?thesis using digit_isDigit[of n] by (subst (1 2) show_nat.simps) simp
  next
    case False
    have "n mod 10 < 10" by simp
    then have "isDigit (digit (n mod 10))" by (rule digit_isDigit)
    then show ?thesis using False 1 by (subst (1 2) show_nat.simps) simp
  qed
qed

lemma digitsValue_snoc: "digitsValue (ds @ [c]) = 10 * digitsValue ds + (of_char c - 48)"
  by (simp add: digitsValue_def)

lemma digitsValue_show_nat: "digitsValue (show_nat n) = n"
proof (induction n rule: show_nat.induct)
  case (1 n)
  show ?case
  proof (cases "n < 10")
    case True
    then show ?thesis using digit_value[of n]
      by (subst show_nat.simps) (simp add: digitsValue_def)
  next
    case False
    have "n mod 10 < 10" by simp
    then have "(of_char (digit (n mod 10)) :: nat) - 48 = n mod 10" by (rule digit_value)
    then show ?thesis using False 1
      by (subst show_nat.simps) (simp add: digitsValue_snoc)
  qed
qed

lemma isDigit_not_space: "isDigit c \<Longrightarrow> \<not> isWhiteSpace c \<and> c \<noteq> CHR ''-'' \<and> c \<noteq> CHR ''+''"
  by (auto simp: isDigit_def isWhiteSpace_def)

lemma parseInt_show_nat: "parseInt (show_nat n) = Some (int n)"
proof -
  obtain c cs where s: "show_nat n = c # cs" using show_nat_digits[of n] by (cases "show_nat n") auto
  have all: "\<forall>x \<in> set (show_nat n). isDigit x" using show_nat_digits by simp
  then have c: "isDigit c" using s by simp
  have d: "dropWhile isWhiteSpace (show_nat n) = show_nat n"
    using isDigit_not_space[OF c] s by simp
  have t: "takeWhile isDigit (show_nat n) = show_nat n" using all by (simp add: takeWhile_eq_all_conv)
  have sg: "take 1 (show_nat n) \<noteq> ''-''" "take 1 (show_nat n) \<noteq> ''+''"
    using isDigit_not_space[OF c] s by simp_all
  have u: "(if take 1 (show_nat n) = ''-'' \<or> take 1 (show_nat n) = ''+''
            then drop 1 (show_nat n) else show_nat n) = show_nat n"
    using sg by simp
  show ?thesis
    unfolding parseInt_def Let_def d u t using sg(1) show_nat_digits[of n]
    by (simp add: digitsValue_show_nat)
qed

lemma trim_id:
  assumes "s \<noteq> []" "\<not> isWhiteSpace (hd s)" "\<not> isWhiteSpace (last s)"
  shows "trim s = s"
proof -
  have a: "dropWhile isWhiteSpace s = s" using assms(1,2) by (cases s) simp_all
  obtain x xs where r: "rev s = x # xs" using assms(1) by (cases "rev s") simp_all
  have "hd (rev s) = last s" using assms(1) by (simp add: hd_rev)
  then have "x = last s" using r by simp
  then have "\<not> isWhiteSpace x" using assms(3) by simp
  then have b: "dropWhile isWhiteSpace (rev s) = rev s" unfolding r by simp
  show ?thesis by (simp add: trim_def a b)
qed

lemma splitChar_none: "d \<notin> set s \<Longrightarrow> splitChar d s = [s]"
  by (induction s) auto

lemma colors_chars:
  assumes "col \<in> set colors"
  shows "col \<noteq> [] \<and> (\<forall>c \<in> set col. \<not> isWhiteSpace c \<and> \<not> isLineTerminator c)"
proof -
  have "col = ''Amber'' \<or> col = ''Amethyst'' \<or> col = ''Emerald'' \<or> col = ''Ruby'' \<or>
        col = ''Sapphire'' \<or> col = ''Steel''"
    using assms by (simp add: colors_def)
  then show ?thesis by (auto simp: isWhiteSpace_def isLineTerminator_def)
qed

lemma lineTerminator_white: "isLineTerminator c \<Longrightarrow> isWhiteSpace c"
  by (auto simp: isLineTerminator_def isWhiteSpace_def)

lemma newFormatMatch_legacy:
  assumes name: "\<forall>c \<in> set name. \<not> isLineTerminator c" and col: "col \<in> set colors"
  shows "newFormatMatch (legacyLine n name col) =
           Some (show_nat n, ''- '' @ name @ '' - '' @ col)"
proof -
  let ?body = "''- '' @ name @ '' - '' @ col"
  have line: "legacyLine n name col = show_nat n @ CHR '' '' # ?body"
    by (simp add: legacyLine_def)
  have dig: "\<forall>c \<in> set (show_nat n). isDigit c" and ne: "show_nat n \<noteq> []"
    using show_nat_digits by simp_all
  have nsp: "\<not> isDigit (CHR '' '')" by (simp add: isDigit_def)
  have ds: "takeWhile isDigit (legacyLine n name col) = show_nat n"
    unfolding line using dig nsp by (simp add: takeWhile_append2)
  have rest: "dropWhile isDigit (legacyLine n name col) = CHR '' '' # ?body"
    unfolding line using dig nsp by (simp add: dropWhile_append2)
  have ws: "takeWhile isWhiteSpace (CHR '' '' # ?body) = '' ''"
    by (simp add: isWhiteSpace_def)
  have body: "dropWhile isWhiteSpace (CHR '' '' # ?body) = ?body"
    by (simp add: isWhiteSpace_def)
  have nolt: "\<not> (\<exists>c \<in> set ?body. isLineTerminator c)"
    using name colors_chars[OF col] by (auto simp: isLineTerminator_def)
  show ?thesis
    unfolding newFormatMatch_def Let_def ds rest ws body using ne nolt by simp
qed

text \<open>
  Claim C8 fails on the code. For every count \<open>n \<ge> 1\<close>, every non-empty name without a
  line terminator and every color of the six, the legacy line
  \<open>"<n> - <name> - <color>"\<close> matches the pattern of the new format, which is tried
  first: the entry has count \<open>n\<close>, the full name \<open>"- <name> - <color>"\<close> and no color.
\<close>

theorem legacy_line_parsed_as_new_format:
  assumes "1 \<le> n" and "name \<noteq> []" and "\<forall>c \<in> set name. \<not> isLineTerminator c"
    and "col \<in> set colors"
  shows "parseDeckText (legacyLine n name col) =
           [\<lparr>entryCount = int n, entryFullName = ''- '' @ name @ '' - '' @ col,
             entryColor = None\<rparr>]"
proof -
  let ?body = "''- '' @ name @ '' - '' @ col"
  let ?line = "legacyLine n name col"
  obtain d ds where sn: "show_nat n = d # ds" using show_nat_digits[of n] by (cases "show_nat n") auto
  have dd: "isDigit d" using show_nat_digits[of n] sn by simp
  note cc = colors_chars[OF assms(4)]
  have lastc: "\<not> isWhiteSpace (last col)" using cc by simp
  have line: "?line = d # ds @ CHR '' '' # ?body" by (simp add: legacyLine_def sn)
  have lne: "?line \<noteq> []" by (simp add: line)
  have hdl: "\<not> isWhiteSpace (hd ?line)" using isDigit_not_space[OF dd] by (simp add: line)
  have lastl: "last ?line = last col" using cc by (simp add: line)
  have tl: "trim ?line = ?line" using trim_id[OF lne hdl] lastl lastc by simp
  have nl: "isLineTerminator (CHR 0x0A)" "\<not> isDigit (CHR 0x0A)"
    by (simp_all add: isLineTerminator_def isDigit_def)
  have "CHR 0x0A \<notin> set (show_nat n)" using show_nat_digits[of n] nl(2) by blast
  moreover have "CHR 0x0A \<notin> set name" using assms(3) nl(1) by blast
  moreover have "CHR 0x0A \<notin> set col" using cc nl(1) by blast
  ultimately have "CHR 0x0A \<notin> set ?line" by (simp add: legacyLine_def)
  then have sp: "splitChar (CHR 0x0A) ?line = [?line]" by (rule splitChar_none)
  have bne: "?body \<noteq> []" by simp
  have "last ?body = last col" using cc by simp
  then have tb: "trim ?body = ?body"
    using trim_id[OF bne] lastc by (simp add: isWhiteSpace_def)
  have pl: "parseLine ?line = Some \<lparr>entryCount = int n, entryFullName = ?body, entryColor = None\<rparr>"
    unfolding parseLine_def newFormatMatch_legacy[OF assms(3,4)]
    using assms(1) tb by (simp add: parseInt_show_nat)
  show ?thesis
    unfolding parseDeckText_def tl sp using lne pl by (simp add: tl List.map_filter_simps)
qed

text \<open>Claim C8 on the line \<^verbatim>\<open>3 - Cinderella - Dream Come True - Sapphire\<close>.\<close>

theorem legacy_line_parsed_as_new_format_witness:
  "legacyLine 3 ''Cinderella - Dream Come True'' ''Sapphire'' =
     ''3 - Cinderella - Dream Come True - Sapphire'' \<and>
   parseDeckText ''3 - Cinderella - Dream Come True - Sapphire'' =
     [\<lparr>entryCount = 3, entryFullName = ''- Cinderella - Dream Come True - Sapphire'',
       entryColor = None\<rparr>]"
proof -
  have l: "legacyLine 3 ''Cinderella - Dream Come True'' ''Sapphire'' =
     ''3 - Cinderella - Dream Come True - Sapphire''" by code_simp
  have "(1::nat) \<le> 3" "''Cinderella - Dream Come True'' \<noteq> []"
    "\<forall>c \<in> set ''Cinderella - Dream Come True''. \<not> isLineTerminator c"
    "''Sapphire'' \<in> set colors"
    by (simp_all add: isLineTerminator_def colors_def)
  from legacy_line_parsed_as_new_format[OF this]
  show ?thesis unfolding l by simp
qed

end
